theory Spec2Isabelle
  imports Complex_Main "HOL-Library.AList"
begin

section \<open>Paths, dictionaries and Python errors\<close>

text \<open>
  A path is a Python tuple whose components are strings (predictor and class names,
  block ids read from file names) or integers (line ids from \<open>enumerate\<close>, the ids
  allocated to freed lines). In Python \<open>"1" == 1\<close> is false, and so is
  \<open>S ''1'' = I 1\<close> here.
\<close>

datatype elem = S string | I int

type_synonym path = "elem list"

datatype error = TypeError | IndexError | KeyError | ValueError | RuntimeError
  | AttributeError | AssertionError | ZeroDivisionError

text \<open>
  A \<open>dict\<close> is an association list in insertion order: \<open>d[k] = v\<close> is
  \<open>AList.update k v d\<close> (an existing key keeps its position, a new key goes to the
  end), \<open>d.get(k)\<close> is \<open>map_of d k\<close>.
\<close>

type_synonym ('k, 'v) dict = "('k \<times> 'v) list"

definition dict_item :: "('k, 'v) dict \<Rightarrow> 'k \<Rightarrow> error + 'v" where
  "dict_item d k = (case map_of d k of None \<Rightarrow> Inl KeyError | Some v \<Rightarrow> Inr v)"

subsection \<open>\<open>int(x)\<close> on a path component\<close>

text \<open>
  \<open>int\<close> of an integer is the integer. \<open>int\<close> of a string strips white space,
  reads an optional sign and then decimal digits, where single underscores may stand
  between digits; anything else raises \<open>ValueError\<close>. Characters are bytes here, so
  digits and spaces outside ASCII are not covered.
\<close>

definition is_space :: "char \<Rightarrow> bool" where
  "is_space c = (c \<in> {CHR '' '', CHR 0x09, CHR 0x0A, CHR 0x0B, CHR 0x0C, CHR 0x0D,
                      CHR 0x1C, CHR 0x1D, CHR 0x1E, CHR 0x1F})"

definition py_strip :: "string \<Rightarrow> string" where
  "py_strip s = rev (dropWhile is_space (rev (dropWhile is_space s)))"

definition digit_val :: "char \<Rightarrow> int option" where
  "digit_val c = (let n = (of_char c :: nat)
                  in if 48 \<le> n \<and> n \<le> 57 then Some (int n - 48) else None)"

fun digits_acc :: "int \<Rightarrow> string \<Rightarrow> int option" where
  "digits_acc a [] = Some a"
| "digits_acc a [c] = (case digit_val c of None \<Rightarrow> None | Some v \<Rightarrow> Some (10 * a + v))"
| "digits_acc a (c # d # ds) =
     (if c = CHR ''_'' then
        (case digit_val d of None \<Rightarrow> None | Some v \<Rightarrow> digits_acc (10 * a + v) ds)
      else (case digit_val c of None \<Rightarrow> None | Some v \<Rightarrow> digits_acc (10 * a + v) (d # ds)))"

definition parse_digits :: "string \<Rightarrow> int option" where
  "parse_digits s = (case s of [] \<Rightarrow> None
     | c # cs \<Rightarrow> (case digit_val c of None \<Rightarrow> None | Some v \<Rightarrow> digits_acc v cs))"

definition int_of_string :: "string \<Rightarrow> error + int" where
  "int_of_string s =
     (let t = py_strip s;
          r = (case t of [] \<Rightarrow> None
               | c # cs \<Rightarrow> if c = CHR ''-'' then map_option uminus (parse_digits cs)
                          else if c = CHR ''+'' then parse_digits cs
                          else parse_digits t)
      in case r of None \<Rightarrow> Inl ValueError | Some n \<Rightarrow> Inr n)"

fun py_int :: "elem \<Rightarrow> error + int" where
  "py_int (I n) = Inr n"
| "py_int (S s) = int_of_string s"

subsection \<open>\<open>str(n)\<close> and \<open>s.split(sep)\<close>\<close>

fun str_nat :: "nat \<Rightarrow> string" where
  "str_nat n = (if n < 10 then [char_of (48 + n)]
                else str_nat (n div 10) @ [char_of (48 + n mod 10)])"

definition str_int :: "int \<Rightarrow> string" where
  "str_int n = (if n < 0 then CHR ''-'' # str_nat (nat (- n)) else str_nat (nat n))"

fun split_on :: "char \<Rightarrow> string \<Rightarrow> string list" where
  "split_on c [] = [[]]"
| "split_on c (x # xs) =
     (if x = c then [] # split_on c xs
      else (case split_on c xs of [] \<Rightarrow> [[x]] | w # ws \<Rightarrow> (x # w) # ws))"

fun join_with :: "string \<Rightarrow> string list \<Rightarrow> string" where
  "join_with sep [] = []"
| "join_with sep [w] = w"
| "join_with sep (w # v # ws) = w @ sep @ join_with sep (v # ws)"

section \<open>Lines and the geometry engine\<close>

text \<open>
  A detected line, as far as this code reads it: its polygon in image space, the path the
  raster prediction gives it, and its error against a (predictor, class) pair. The
  class is defined outside these sources; its attributes are the fields.
\<close>

record 'g line =
  image_space_polygon :: 'g
  predicted_path :: path
  predicted_path_error :: "path \<Rightarrow> real"

text \<open>
  The geometry library (shapely) is a collaborator: the code calls five of its
  operations on geometries of type \<open>'g\<close>. They are passed as a record, so every
  theorem holds for any implementation of them.
\<close>

record 'g shapely =
  cascaded_union :: "'g list \<Rightarrow> 'g"
  convex_hull :: "'g \<Rightarrow> 'g"
  intersection :: "'g \<Rightarrow> 'g \<Rightarrow> 'g"
  geom_type :: "'g \<Rightarrow> string"
  is_empty :: "'g \<Rightarrow> bool"

section \<open>\<open>reliable_contours\<close>\<close>

text \<open>
  \<open>max_ids\<close> is a \<open>defaultdict(int)\<close>: a total function that reads 0 at a key never
  written. The first loop runs over the keys of \<open>all_contours\<close>; \<open>k[2]\<close> raises
  \<open>IndexError\<close> on a key shorter than three, \<open>int\<close> raises \<open>ValueError\<close>.
\<close>

fun max_ids_loop :: "path list \<Rightarrow> (path \<Rightarrow> int) \<Rightarrow> error + (path \<Rightarrow> int)" where
  "max_ids_loop [] m = Inr m"
| "max_ids_loop (k # ks) m =
     (if length k < 3 then Inl IndexError
      else (case py_int (k ! 2) of
              Inl e \<Rightarrow> Inl e
            | Inr n \<Rightarrow> max_ids_loop ks (m(take 2 k := max (m (take 2 k)) n))))"

text \<open>
  The loop over \<open>free_lines\<close>: a fresh id per line, a new entry of \<open>reliable\<close> holding the
  line's own polygon, and a new entry of the caller's \<open>detected_lines\<close>.
\<close>

fun free_loop :: "(path \<times> 'g line) list \<Rightarrow> (path \<Rightarrow> int) \<Rightarrow> (path, 'g) dict \<Rightarrow>
    (path, 'g line) dict \<Rightarrow> (path, 'g) dict \<times> (path, 'g line) dict" where
  "free_loop [] m reliable detected_lines = (reliable, detected_lines)"
| "free_loop ((pred_path, l) # fs) m reliable detected_lines =
     (let new_id = m pred_path + 1;
          new_path = pred_path @ [I new_id]
      in free_loop fs (m(pred_path := new_id))
           (AList.update new_path (image_space_polygon l) reliable)
           (AList.update (new_path @ [I 0]) l detected_lines))"

text \<open>\<open>block_lines\<close>: the lines of \<open>all_lines\<close> grouped by \<open>path[:3]\<close>, a \<open>defaultdict(list)\<close>.\<close>

definition lines_of :: "(path, 'a list) dict \<Rightarrow> path \<Rightarrow> 'a list" where
  "lines_of b p = (case map_of b p of None \<Rightarrow> [] | Some ls \<Rightarrow> ls)"

fun group_lines :: "(path \<times> 'a) list \<Rightarrow> (path, 'a list) dict \<Rightarrow> (path, 'a list) dict" where
  "group_lines [] b = b"
| "group_lines ((p, l) # xs) b =
     group_lines xs (AList.update (take 3 p) (lines_of b (take 3 p) @ [l]) b)"

text \<open>
  The geometry of a block with lines: the convex hull of the union of the lines'
  polygons, cut with the block's contour, and the convex hull of that when its type is
  not \<open>Polygon\<close>.
\<close>

definition block_geom :: "'g shapely \<Rightarrow> 'g line list \<Rightarrow> 'g \<Rightarrow> 'g" where
  "block_geom sh ls contour =
     (let lines_hull = convex_hull sh (cascaded_union sh (map image_space_polygon ls));
          geom = intersection sh lines_hull contour
      in if geom_type sh geom \<noteq> ''Polygon'' then convex_hull sh geom else geom)"

definition ignored :: "(path \<Rightarrow> bool) option \<Rightarrow> path \<Rightarrow> bool" where
  "ignored ign p = (case ign of None \<Rightarrow> False | Some f \<Rightarrow> f p)"

fun block_loop :: "'g shapely \<Rightarrow> (path \<Rightarrow> bool) option \<Rightarrow> (path, 'g) dict \<Rightarrow>
    (path, 'g line list) dict \<Rightarrow> (path, 'g) dict \<Rightarrow> error + (path, 'g) dict" where
  "block_loop sh ign all_contours [] reliable = Inr reliable"
| "block_loop sh ign all_contours ((p, ls) # bs) reliable =
     (if ignored ign p then block_loop sh ign all_contours bs reliable
      else (case dict_item all_contours p of
              Inl e \<Rightarrow> Inl e
            | Inr contour \<Rightarrow>
                block_loop sh ign all_contours bs
                  (AList.update p (block_geom sh ls contour) reliable)))"

text \<open>
  The last loop copies the contours of the paths not in \<open>reliable\<close>. Python iterates a
  set there, in no specified order; the model takes the order of \<open>all_contours\<close>. No
  statement below depends on the order of the result, only on its entries.
\<close>

definition keep_rest :: "(path, 'g) dict \<Rightarrow> (path, 'g) dict \<Rightarrow> (path, 'g) dict" where
  "keep_rest all_contours reliable =
     reliable @ filter (\<lambda>(k, c). k \<notin> fst ` set reliable) all_contours"

text \<open>
  The function returns \<open>reliable\<close> and mutates its argument \<open>detected_lines\<close>: the model
  returns both, the second also when an exception leaves the function. \<open>all_lines\<close> and
  \<open>detected_lines\<close> are two dictionaries.
\<close>

definition reliable_contours :: "'g shapely \<Rightarrow> (path, 'g) dict \<Rightarrow> (path, 'g line) dict \<Rightarrow>
    (path \<times> 'g line) list \<Rightarrow> (path, 'g line) dict \<Rightarrow> (path \<Rightarrow> bool) option \<Rightarrow>
    (error + (path, 'g) dict) \<times> (path, 'g line) dict" where
  "reliable_contours sh all_contours all_lines free_lines detected_lines ign =
     (case max_ids_loop (map fst all_contours) (\<lambda>_. 0) of
        Inl e \<Rightarrow> (Inl e, detected_lines)
      | Inr max_ids \<Rightarrow>
          (case free_loop free_lines max_ids [] detected_lines of
             (reliable, detected_lines') \<Rightarrow>
               (case block_loop sh ign all_contours (group_lines all_lines []) reliable of
                  Inl e \<Rightarrow> (Inl e, detected_lines')
                | Inr reliable' \<Rightarrow> (Inr (keep_rest all_contours reliable'), detected_lines'))))"


subsection \<open>What the statements about \<open>reliable_contours\<close> refer to\<close>

text \<open>
  The numeric suffixes of the contour paths under a (predictor, class) prefix, and their
  maximum, 0 when there is none.
\<close>

definition suffix_ids :: "path list \<Rightarrow> path \<Rightarrow> int list" where
  "suffix_ids ks P =
     concat (map (\<lambda>k. if take 2 k = P
                        then (case py_int (k ! 2) of Inl e \<Rightarrow> [] | Inr n \<Rightarrow> [n]) else []) ks)"

definition max_suffix :: "path list \<Rightarrow> path \<Rightarrow> int" where
  "max_suffix ks P = Max (insert 0 (set (suffix_ids ks P)))"

text \<open>
  The path the \<open>j\<close>-th freed line is expected at: its predicted path \<open>P\<close>, followed by
  the maximum suffix of \<open>P\<close> plus one plus the number of earlier freed lines that
  predict \<open>P\<close>.
\<close>

definition freed_path :: "path list \<Rightarrow> (path \<times> 'a) list \<Rightarrow> nat \<Rightarrow> path" where
  "freed_path ks fl j =
     (let P = fst (fl ! j)
      in P @ [I (max_suffix ks P + 1 + int (length (filter (\<lambda>x. fst x = P) (take j fl))))])"

text \<open>The kept lines of a block, in the order of \<open>all_lines\<close>.\<close>

definition kept_lines :: "(path \<times> 'a) list \<Rightarrow> path \<Rightarrow> 'a list" where
  "kept_lines al B = map snd (filter (\<lambda>x. take 3 (fst x) = B) al)"

text \<open>
  The test of \<open>LineDetectionProcessor.process\<close> before it writes a contour: the
  contour is reported to the log when it is neither a \<open>Polygon\<close> nor empty.
\<close>

definition logged :: "'g shapely \<Rightarrow> 'g \<Rightarrow> bool" where
  "logged sh contour = (geom_type sh contour \<noteq> ''Polygon'' \<and> \<not> is_empty sh contour)"

text \<open>Auxiliary: the new paths of the freed lines in order, and one dictionary store.\<close>

fun alloc :: "(path \<Rightarrow> int) \<Rightarrow> (path \<times> 'a) list \<Rightarrow> path list" where
  "alloc m [] = []"
| "alloc m ((P, l) # fs) = (P @ [I (m P + 1)]) # alloc (m(P := m P + 1)) fs"

definition put :: "('k \<times> 'v) \<Rightarrow> ('k, 'v) dict \<Rightarrow> ('k, 'v) dict" where
  "put kv d = AList.update (fst kv) (snd kv) d"

section \<open>The line reclassifier of \<open>LineDetectionProcessor.process\<close>\<close>

text \<open>
  \<open>c_tables\<close> is the set of the keys of the table columns, each split at \<open>/\<close>.
  The error of a line is what the line reports against its block's (predictor, class)
  pair, except in a \<open>regions/TABULAR\<close> block without columns, where it is 0.
  Errors and the threshold are Python floats, taken as reals.
\<close>

definition c_tables_of :: "(string, 'c) dict \<Rightarrow> path set" where
  "c_tables_of table_columns =
     set (map (\<lambda>x. map S (split_on CHR ''/'' x)) (map fst table_columns))"

definition line_error :: "path set \<Rightarrow> elem \<Rightarrow> elem \<Rightarrow> elem \<Rightarrow> 'g line \<Rightarrow> real" where
  "line_error c_tables prediction_name class_name block_id l =
     (let error = predicted_path_error l [prediction_name, class_name]
      in if (prediction_name, class_name) = (S ''regions'', S ''TABULAR'')
         then (let has_columns = ([prediction_name, class_name, block_id] \<in> c_tables)
               in if \<not> has_columns then 0 else error)
         else error)"

fun reclassify_lines :: "real \<Rightarrow> path set \<Rightarrow> elem \<Rightarrow> elem \<Rightarrow> elem \<Rightarrow> nat \<Rightarrow> 'g line list \<Rightarrow>
    (path, 'g line) dict \<times> (path \<times> 'g line) list \<Rightarrow>
    (path, 'g line) dict \<times> (path \<times> 'g line) list" where
  "reclassify_lines thr ct pn cn bid line_id [] st = st"
| "reclassify_lines thr ct pn cn bid line_id (l # ls) (detected_lines, free_lines) =
     reclassify_lines thr ct pn cn bid (Suc line_id) ls
       (if line_error ct pn cn bid l > thr
        then (detected_lines, free_lines @ [(predicted_path l, l)])
        else (AList.update [pn, cn, bid, I (int line_id)] l detected_lines, free_lines))"

fun reclassify_blocks :: "real \<Rightarrow> path set \<Rightarrow> (path \<times> 'g line list) list \<Rightarrow>
    (path, 'g line) dict \<times> (path \<times> 'g line) list \<Rightarrow>
    error + (path, 'g line) dict \<times> (path \<times> 'g line) list" where
  "reclassify_blocks thr ct [] st = Inr st"
| "reclassify_blocks thr ct ((parts, lines) # bs) st =
     (if length parts < 3 then Inl IndexError
      else reclassify_blocks thr ct bs
             (reclassify_lines thr ct (parts ! 0) (parts ! 1) (parts ! 2) 0 lines st))"

definition reclassify :: "real \<Rightarrow> (string, 'c) dict \<Rightarrow> (path \<times> 'g line list) list \<Rightarrow>
    error + (path, 'g line) dict \<times> (path \<times> 'g line) list" where
  "reclassify thr table_columns detected_lines_by_block =
     reclassify_blocks thr (c_tables_of table_columns) detected_lines_by_block ([], [])"

text \<open>
  A Python call binds its positional arguments before the body runs: with fewer than
  the required parameters, or more than all of them, it raises \<open>TypeError\<close>.
  \<open>reliable_contours\<close> has four required parameters (\<open>all_contours\<close>, \<open>all_lines\<close>,
  \<open>free_lines\<close>, \<open>detected_lines\<close>) and one optional (\<open>ignore\<close>);
  \<open>process\<close> calls it with three arguments (\<open>blocks\<close>, \<open>free_lines\<close>,
  \<open>detected_lines\<close>).
\<close>

definition bind_positional :: "nat \<Rightarrow> nat \<Rightarrow> nat \<Rightarrow> error + unit" where
  "bind_positional required optional given =
     (if given < required \<or> required + optional < given then Inl TypeError else Inr ())"

text \<open>
  \<open>process\<close> from the reclassification on (the detector and the confidence update
  before it are collaborators; the lines are taken as they leave them). It returns at
  once on a page without blocks. Writing the archives is not modelled.
\<close>

definition process :: "real \<Rightarrow> (string, 'c) dict \<Rightarrow> (path, 'b) dict \<Rightarrow>
    (path \<times> 'g line list) list \<Rightarrow> error + unit" where
  "process thr table_columns blocks detected_lines_by_block =
     (if blocks = [] then Inr ()
      else (case reclassify thr table_columns detected_lines_by_block of
              Inl e \<Rightarrow> Inl e
            | Inr (detected_lines, free_lines) \<Rightarrow>
                (case bind_positional 4 1 3 of Inl e \<Rightarrow> Inl e | Inr u \<Rightarrow> Inr ())))"

text \<open>
  The loop of \<open>process\<close> that writes the contours of a mapping \<open>reliable\<close>: every
  contour is written to the archive; one that is neither a \<open>Polygon\<close> nor empty is
  reported to the log before, with its type. The loop raises nothing. The log and the
  archive are the state.
\<close>

fun write_contours :: "'g shapely \<Rightarrow> (path, 'g) dict \<Rightarrow>
    (path \<times> string) list \<times> (path \<times> 'g) list \<Rightarrow> (path \<times> string) list \<times> (path \<times> 'g) list" where
  "write_contours sh [] (msgs, zf) = (msgs, zf)"
| "write_contours sh ((k, contour) # rest) (msgs, zf) =
     write_contours sh rest
       (if geom_type sh contour \<noteq> ''Polygon'' \<and> \<not> is_empty sh contour
        then msgs @ [(k, geom_type sh contour)] else msgs,
        zf @ [(k, contour)])"

section \<open>\<open>LineRewriter\<close>\<close>

text \<open>\<open>__init__\<close>: the column table keyed by the split path.\<close>

definition LineRewriter_init :: "(string, 'x list) dict \<Rightarrow> (path, 'x list) dict" where
  "LineRewriter_init columns =
     fold put (map (\<lambda>(k, xs). (map S (split_on CHR ''/'' k), xs)) columns) []"

text \<open>
  \<open>_column_path\<close>. Unpacking \<open>path[:2]\<close> needs two components, \<open>path[2]\<close> a third,
  \<open>split\<close> a string; \<open>int(path[-1])\<close> may raise \<open>ValueError\<close>.
\<close>

definition column_path :: "path \<Rightarrow> nat \<Rightarrow> error + path" where
  "column_path path column =
     (if \<not> 1 \<le> column then Inl AssertionError
      else if length path < 2 then Inl ValueError
      else if length path < 3 then Inl IndexError
      else (case path ! 2 of
              I n \<Rightarrow> Inl AttributeError
            | S s \<Rightarrow>
                (let parts = split_on CHR ''.'' s
                 in if length parts \<noteq> 4 then Inl RuntimeError
                    else (case py_int (last path) of
                            Inl e \<Rightarrow> Inl e
                          | Inr n \<Rightarrow>
                              Inr [path ! 0, path ! 1,
                                   S (join_with ''.'' [parts ! 0, parts ! 1,
                                        str_int (1 + n), str_nat column]),
                                   S ''0'']))))"

type_synonym ('l, 'x) line_part = "path \<times> 'l \<times> ('x option \<times> 'x option) option"

fun column_parts :: "path \<Rightarrow> 'l \<Rightarrow> nat \<Rightarrow> ('x option \<times> 'x option) list \<Rightarrow>
    error + ('l, 'x) line_part list" where
  "column_parts path lin i [] = Inr []"
| "column_parts path lin i (r # rs) =
     (case column_path path (1 + i) of
        Inl e \<Rightarrow> Inl e
      | Inr p \<Rightarrow> (case column_parts path lin (Suc i) rs of
                    Inl e \<Rightarrow> Inl e
                  | Inr ps \<Rightarrow> Inr ((p, lin, Some r) # ps)))"

definition line_parts_of :: "(path, 'x list) dict \<Rightarrow> path \<Rightarrow> 'l \<Rightarrow>
    error + ('l, 'x) line_part list" where
  "line_parts_of cols path lin =
     (case map_of cols (take 3 path) of
        None \<Rightarrow> Inr [(path, lin, None)]
      | Some line_columns \<Rightarrow>
          (let lc = [None] @ map Some line_columns @ [None]
           in column_parts path lin 0 (zip lc (tl lc))))"

fun rewrite_lines :: "(path, 'x list) dict \<Rightarrow> (path \<times> 'l) list \<Rightarrow>
    error + ('l, 'x) line_part list" where
  "rewrite_lines cols [] = Inr []"
| "rewrite_lines cols ((path, lin) # ls) =
     (case line_parts_of cols path lin of
        Inl e \<Rightarrow> Inl e
      | Inr ps \<Rightarrow> (case rewrite_lines cols ls of
                     Inl e \<Rightarrow> Inl e
                   | Inr qs \<Rightarrow> Inr (ps @ qs)))"

definition LineRewriter_call :: "(string, 'x list) dict \<Rightarrow> (path \<times> 'l) list \<Rightarrow>
    error + ('l, 'x) line_part list" where
  "LineRewriter_call columns lines = rewrite_lines (LineRewriter_init columns) lines"

text \<open>
  What the statements about the rewriter refer to: the dot-separated fields of the
  table-block component of a path (none when the path has no such component or it is
  not a string), the lines of a mapping that match a table entry, and those among them
  whose component does not have exactly four fields.
\<close>

definition block_fields :: "path \<Rightarrow> string list" where
  "block_fields path =
     (if length path < 3 then []
      else (case path ! 2 of S s \<Rightarrow> split_on CHR ''.'' s | I n \<Rightarrow> []))"

definition table_line :: "(string, 'x list) dict \<Rightarrow> path \<Rightarrow> bool" where
  "table_line columns path = (map_of (LineRewriter_init columns) (take 3 path) \<noteq> None)"

definition malformed :: "(string, 'x list) dict \<Rightarrow> path \<Rightarrow> bool" where
  "malformed columns path = (table_line columns path \<and> length (block_fields path) \<noteq> 4)"

section \<open>\<open>ConfidenceSampler\<close>\<close>

text \<open>
  A predictor has a label raster with its shape (height, width) and classes with a name
  and a value. The sampling grid is an array of points. The grid of a line
  (\<open>warped_grid\<close>) and the nearest-neighbour lookup (\<open>cv2.remap\<close>, flattened) are
  collaborators, passed as functions.
\<close>

record 'r predictor =
  labels :: 'r
  labels_shape :: "nat \<times> nat"
  classes :: "(string \<times> int) list"

type_synonym grid = "(real \<times> real) list list"

text \<open>Python's \<open>a / b\<close> on integers raises on \<open>b = 0\<close>.\<close>

definition true_divide :: "nat \<Rightarrow> nat \<Rightarrow> error + real" where
  "true_divide a b = (if b = 0 then Inl ZeroDivisionError else Inr (real a / real b))"

definition scale_grid :: "nat \<times> nat \<Rightarrow> nat \<times> nat \<Rightarrow> grid \<Rightarrow> error + grid" where
  "scale_grid s0 s1 g =
     (case (s0, s1) of ((h0, w0), (h1, w1)) \<Rightarrow>
        (case true_divide w1 w0 of
           Inl e \<Rightarrow> Inl e
         | Inr fx \<Rightarrow> (case true_divide h1 h0 of
                        Inl e \<Rightarrow> Inl e
                      | Inr fy \<Rightarrow> Inr (map (map (\<lambda>(x, y). (x * fx, y * fy))) g))))"

text \<open>\<open>np.bincount(xs, minlength=n)\<close>: one bin per value up to the largest, at least \<open>n\<close>.\<close>

definition bincount :: "nat list \<Rightarrow> nat \<Rightarrow> nat list" where
  "bincount xs minlength =
     map (\<lambda>v. count_list xs v)
       [0 ..< max minlength (if xs = [] then 0 else Suc (fold max xs 0))]"

text \<open>An array read at an integer index, negative indices counting from the end.\<close>

definition np_item :: "'a list \<Rightarrow> int \<Rightarrow> error + 'a" where
  "np_item xs i =
     (if 0 \<le> i \<and> i < int (length xs) then Inr (xs ! nat i)
      else if i < 0 \<and> - int (length xs) \<le> i then Inr (xs ! nat (int (length xs) + i))
      else Inl IndexError)"

fun format_s :: "elem \<Rightarrow> string" where
  "format_s (S s) = s"
| "format_s (I n) = str_int n"

text \<open>
  The histogram of a call: the predictor of the path, the grid of the line scaled to
  the raster, the labels under it, their counts.
\<close>

definition sample_counts :: "(string, 'r predictor) dict \<Rightarrow> nat \<times> nat \<Rightarrow>
    ('l \<Rightarrow> real \<Rightarrow> real \<Rightarrow> grid) \<Rightarrow> ('r \<Rightarrow> grid \<Rightarrow> nat list) \<Rightarrow>
    path \<Rightarrow> 'l \<Rightarrow> real \<Rightarrow> error + 'r predictor \<times> nat list" where
  "sample_counts predictions page_shape warped_grid remap path lin res =
     (if length path < 2 then Inl ValueError
      else (case (case path ! 0 of S s \<Rightarrow> dict_item predictions s | I n \<Rightarrow> Inl KeyError) of
              Inl e \<Rightarrow> Inl e
            | Inr pr \<Rightarrow>
                (case scale_grid page_shape (labels_shape pr) (warped_grid lin res res) of
                   Inl e \<Rightarrow> Inl e
                 | Inr g \<Rightarrow> Inr (pr, bincount (remap (labels pr) g) (length (classes pr))))))"

text \<open>
  The evidence loop. The quotient is numpy's; a zero divisor there counts as an error
  of the model.
\<close>

fun evidence_loop :: "string \<Rightarrow> nat list \<Rightarrow> nat \<Rightarrow> (string \<times> int) list \<Rightarrow>
    (string, real) dict \<Rightarrow> error + (string, real) dict" where
  "evidence_loop name counts sum_all [] evidence = Inr evidence"
| "evidence_loop name counts sum_all ((k_name, k_value) # ks) evidence =
     (case np_item counts k_value of
        Inl e \<Rightarrow> Inl e
      | Inr c \<Rightarrow> (case true_divide c sum_all of
                    Inl e \<Rightarrow> Inl e
                  | Inr v \<Rightarrow> evidence_loop name counts sum_all ks
                               (AList.update (name @ ''/'' @ k_name) v evidence)))"

definition ConfidenceSampler_call :: "(string, 'r predictor) dict \<Rightarrow> nat \<times> nat \<Rightarrow>
    ('l \<Rightarrow> real \<Rightarrow> real \<Rightarrow> grid) \<Rightarrow> ('r \<Rightarrow> grid \<Rightarrow> nat list) \<Rightarrow>
    path \<Rightarrow> 'l \<Rightarrow> real \<Rightarrow> error + (string, real) dict" where
  "ConfidenceSampler_call predictions page_shape warped_grid remap path lin res =
     (case sample_counts predictions page_shape warped_grid remap path lin res of
        Inl e \<Rightarrow> Inl e
      | Inr (pr, counts) \<Rightarrow>
          (let sum_all = sum_list counts
           in if sum_all > 0
              then evidence_loop (format_s (path ! 0)) counts sum_all (classes pr) []
              else Inr []))"

section \<open>A geometry engine on a strip\<close>

text \<open>
  An instance of the geometry operations, exact on the geometries \<open>X \<times> [0, 1]\<close> where
  \<open>X\<close> is a finite union of closed intervals with integer end points (rectangles of
  height one, their unions, and the vertical segments where two of them touch). Such a
  geometry is given by the sorted list of the \<open>n\<close> with \<open>n / 2 \<in> X\<close> for even \<open>n\<close>,
  and with the open interval between \<open>(n - 1) / 2\<close> and \<open>(n + 1) / 2\<close> inside \<open>X\<close> for
  odd \<open>n\<close>: the rectangle \<open>[0, 1] \<times> [0, 1]\<close> is \<open>[0, 1, 2]\<close>, the segment at \<open>x = 1\<close>
  is \<open>[2]\<close>. Union and intersection are those of the lists, the convex hull fills the
  range, and the type counts the runs of consecutive numbers.
\<close>

type_synonym strip_geom = "int list"

definition strip_union :: "strip_geom list \<Rightarrow> strip_geom" where
  "strip_union gs = sort (remdups (concat gs))"

definition strip_hull :: "strip_geom \<Rightarrow> strip_geom" where
  "strip_hull g = (if g = [] then [] else [fold min g (hd g) .. fold max g (hd g)])"

definition strip_intersection :: "strip_geom \<Rightarrow> strip_geom \<Rightarrow> strip_geom" where
  "strip_intersection a b = filter (\<lambda>x. x \<in> set b) a"

fun runs :: "int list \<Rightarrow> int list list" where
  "runs [] = []"
| "runs [x] = [[x]]"
| "runs (x # y # ys) =
     (if y = x + 1
      then (case runs (y # ys) of [] \<Rightarrow> [[x]] | r # rs \<Rightarrow> (x # r) # rs)
      else [x] # runs (y # ys))"

definition strip_type :: "strip_geom \<Rightarrow> string" where
  "strip_type g =
     (let rs = runs g
      in if rs = [] then ''GeometryCollection''
         else if length rs = 1 then (if length (hd rs) = 1 then ''LineString'' else ''Polygon'')
         else if list_all (\<lambda>r. 1 < length r) rs then ''MultiPolygon''
         else if list_all (\<lambda>r. length r = 1) rs then ''MultiLineString''
         else ''GeometryCollection'')"

definition strip_shapely :: "strip_geom shapely" where
  "strip_shapely = \<lparr>cascaded_union = strip_union, convex_hull = strip_hull,
     intersection = strip_intersection, geom_type = strip_type,
     is_empty = (\<lambda>g. g = [])\<rparr>"

text \<open>Lines with a polygon on the strip, a predicted path and a constant error.\<close>

definition strip_line :: "strip_geom \<Rightarrow> path \<Rightarrow> real \<Rightarrow> strip_geom line" where
  "strip_line g pp err =
     \<lparr>image_space_polygon = g, predicted_path = pp, predicted_path_error = (\<lambda>_. err)\<rparr>"

section \<open>Example pages\<close>

text \<open>
  A page with one text block \<open>003\<close> and two freed lines that predict \<open>regions/TEXT\<close>;
  a mapping of detected lines with one entry.
\<close>

definition ex_contours :: "(path, strip_geom) dict" where
  "ex_contours = [([S ''regions'', S ''TEXT'', S ''003''], [0, 1, 2])]"

definition ex_free_lines :: "(path \<times> strip_geom line) list" where
  "ex_free_lines =
     [([S ''regions'', S ''TEXT''], strip_line [4, 5, 6] [S ''regions'', S ''TEXT''] 1),
      ([S ''regions'', S ''TEXT''], strip_line [8, 9, 10] [S ''regions'', S ''TEXT''] 1)]"

definition ex_detected :: "(path, strip_geom line) dict" where
  "ex_detected =
     [([S ''regions'', S ''TEXT'', S ''003'', I 0],
       strip_line [0, 1, 2] [S ''regions'', S ''TEXT''] 0)]"

text \<open>
  A block \<open>[0, 1] \<times> [0, 1]\<close> whose one line lies beside it, in \<open>[1, 2] \<times> [0, 1]\<close>: they
  share the edge at \<open>x = 1\<close>.
\<close>

definition touch_contours :: "(path, strip_geom) dict" where
  "touch_contours = [([S ''regions'', S ''TEXT'', S ''0''], [0, 1, 2])]"

definition touch_lines :: "(path, strip_geom line) dict" where
  "touch_lines =
     [([S ''regions'', S ''TEXT'', S ''0'', I 0],
       strip_line [2, 3, 4] [S ''regions'', S ''TEXT''] 0)]"

text \<open>
  A block whose contour has two parts, \<open>[0, 1] \<times> [0, 1]\<close> and \<open>[3, 4] \<times> [0, 1]\<close>, with
  one line over both; and a line inside the block of \<open>ex_contours\<close> and beyond it.
\<close>

definition split_contours :: "(path, strip_geom) dict" where
  "split_contours = [([S ''regions'', S ''TEXT'', S ''0''], [0, 1, 2, 6, 7, 8])]"

definition wide_lines :: "(path, strip_geom line) dict" where
  "wide_lines =
     [([S ''regions'', S ''TEXT'', S ''0'', I 0],
       strip_line [0, 1, 2, 3, 4, 5, 6, 7, 8] [S ''regions'', S ''TEXT''] 0)]"

definition inner_lines :: "(path, strip_geom line) dict" where
  "inner_lines =
     [([S ''regions'', S ''TEXT'', S ''003'', I 0],
       strip_line [0, 1, 2, 3, 4] [S ''regions'', S ''TEXT''] 0)]"

text \<open>
  A page with one text block \<open>0\<close> and two detected lines: one with error 0.1 against
  its block, one with error 0.8 that the raster takes for an illustration. No table has
  columns.
\<close>

definition page_blocks :: "(path, strip_geom) dict" where
  "page_blocks = [([S ''regions'', S ''TEXT'', S ''0''], [0, 1, 2, 3, 4, 5, 6, 7, 8])]"

definition good_line :: "strip_geom line" where
  "good_line = strip_line [0, 1, 2, 3, 4] [S ''regions'', S ''TEXT''] (1 / 10)"

definition bad_line :: "strip_geom line" where
  "bad_line = strip_line [4, 5, 6, 7, 8] [S ''regions'', S ''ILLUSTRATION''] (8 / 10)"

definition no_columns :: "(string, real list) dict" where
  "no_columns = []"

text \<open>
  Two tables with columns, one of them under a block component with three fields; a page
  with a table line and a text line, the parts expected for it, and a page whose table
  line lies in the block with three fields.
\<close>

definition table_columns_ex :: "(string, int list) dict" where
  "table_columns_ex = [(''regions/TABULAR/1.2.3.4'', [100, 300]), (''regions/TABULAR/5.6.7'', [50])]"

definition page_lines_ex :: "(path, string) dict" where
  "page_lines_ex =
     [([S ''regions'', S ''TABULAR'', S ''1.2.3.4'', I 0], ''row''),
      ([S ''regions'', S ''TEXT'', S ''1'', I 0], ''text'')]"

definition parts_ex :: "(string, int) line_part list" where
  "parts_ex =
     [([S ''regions'', S ''TABULAR'', S ''1.2.1.1'', S ''0''], ''row'', Some (None, Some 100)),
      ([S ''regions'', S ''TABULAR'', S ''1.2.1.2'', S ''0''], ''row'', Some (Some 100, Some 300)),
      ([S ''regions'', S ''TABULAR'', S ''1.2.1.3'', S ''0''], ''row'', Some (Some 300, None)),
      ([S ''regions'', S ''TEXT'', S ''1'', I 0], ''text'', None)]"

definition short_row_lines :: "(path, string) dict" where
  "short_row_lines =
     [([S ''regions'', S ''TEXT'', S ''1'', I 0], ''text''),
      ([S ''regions'', S ''TABULAR'', S ''5.6.7'', I 0], ''row'')]"

text \<open>
  A predictor \<open>regions\<close> with a raster of two rows and two classes, on a page of four
  by four; a grid of four points and an empty grid; a lookup of the label at the point,
  0 outside the raster.
\<close>

definition ex_predictions :: "(string, nat list list predictor) dict" where
  "ex_predictions =
     [(''regions'',
       \<lparr>labels = [[0, 1], [1, 1]], labels_shape = (2, 2),
        classes = [(''BACKGROUND'', 0), (''TEXT'', 1)]\<rparr>)]"

definition ex_grid :: "unit \<Rightarrow> real \<Rightarrow> real \<Rightarrow> grid" where
  "ex_grid l xres yres = [[(0, 0), (2, 0)], [(0, 2), (2, 2)]]"

definition empty_grid :: "unit \<Rightarrow> real \<Rightarrow> real \<Rightarrow> grid" where
  "empty_grid l xres yres = []"

definition nearest :: "nat list list \<Rightarrow> grid \<Rightarrow> nat list" where
  "nearest r g =
     map (\<lambda>(x, y). if 0 \<le> x \<and> 0 \<le> y \<and> nat \<lfloor>y\<rfloor> < length r \<and> nat \<lfloor>x\<rfloor> < length (r ! nat \<lfloor>y\<rfloor>)
                     then r ! nat \<lfloor>y\<rfloor> ! nat \<lfloor>x\<rfloor> else 0) (concat g)"

section \<open>Properties of \<open>reliable_contours\<close>\<close>

subsection \<open>The loops\<close>


lemma max_ids_loop_Max:
  "max_ids_loop ks m = Inr m' \<Longrightarrow> m' P = Max (insert (m P) (set (suffix_ids ks P)))"
proof (induction ks arbitrary: m)
  case Nil
  then show ?case by (simp add: suffix_ids_def)
next
  case (Cons k ks)
  from Cons.prems obtain n where len: "\<not> length k < 3" and n: "py_int (k ! 2) = Inr n"
    and rest: "max_ids_loop ks (m(take 2 k := max (m (take 2 k)) n)) = Inr m'"
    by (auto split: if_splits sum.splits)
  have ih: "m' P = Max (insert ((m(take 2 k := max (m (take 2 k)) n)) P) (set (suffix_ids ks P)))"
    by (rule Cons.IH [OF rest])
  show ?case
  proof (cases "take 2 k = P")
    case True
    have "suffix_ids (k # ks) P = n # suffix_ids ks P"
      using True n by (simp add: suffix_ids_def)
    moreover have "Max (insert (max (m P) n) (set (suffix_ids ks P)))
        = Max (insert (m P) (insert n (set (suffix_ids ks P))))"
      by (cases "set (suffix_ids ks P) = {}") (auto simp: max.commute max.left_commute max.assoc)
    ultimately show ?thesis using ih True by simp
  next
    case False
    then have "suffix_ids (k # ks) P = suffix_ids ks P"
      by (simp add: suffix_ids_def)
    then show ?thesis using ih False by simp
  qed
qed

lemma max_ids_loop_keys:
  "max_ids_loop ks m = Inr m' \<Longrightarrow> k \<in> set ks \<Longrightarrow>
     3 \<le> length k \<and> (\<exists>n. py_int (k ! 2) = Inr n \<and> n \<le> m' (take 2 k))"
proof (induction ks arbitrary: m)
  case Nil
  then show ?case by simp
next
  case (Cons a ks)
  from Cons.prems(1) obtain n where len: "\<not> length a < 3" and n: "py_int (a ! 2) = Inr n"
    and rest: "max_ids_loop ks (m(take 2 a := max (m (take 2 a)) n)) = Inr m'"
    by (auto split: if_splits sum.splits)
  show ?case
  proof (cases "k = a")
    case True
    have "m' (take 2 a) = Max (insert ((m(take 2 a := max (m (take 2 a)) n)) (take 2 a)) (set (suffix_ids ks (take 2 a))))"
      by (rule max_ids_loop_Max [OF rest])
    then have "n \<le> m' (take 2 a)" by (simp add: Max_ge_iff)
    with True len n show ?thesis by simp
  next
    case False
    with Cons.prems(2) have "k \<in> set ks" by simp
    from Cons.IH [OF rest this] show ?thesis .
  qed
qed


lemma map_of_fold_put: "map_of (fold put kvs d) = map_of d ++ map_of (rev kvs)"
proof (induction kvs arbitrary: d)
  case Nil
  then show ?case by simp
next
  case (Cons kv kvs)
  have 1: "map_of (put kv d) = (map_of d)(fst kv \<mapsto> snd kv)"
    by (simp add: put_def update_conv')
  have "map_of (fold put (kv # kvs) d) = map_of (put kv d) ++ map_of (rev kvs)"
    using Cons.IH [of "put kv d"] by simp
  also have "\<dots> = map_of d ++ map_of (rev (kv # kvs))"
    unfolding 1 by (cases kv) (auto simp: map_add_def fun_eq_iff split: option.splits)
  finally show ?case .
qed

lemma free_loop_fold:
  "free_loop fs m r d =
     (fold put (zip (alloc m fs) (map (image_space_polygon \<circ> snd) fs)) r,
      fold put (zip (map (\<lambda>p. p @ [I 0]) (alloc m fs)) (map snd fs)) d)"
  by (induction fs arbitrary: m r d) (auto simp: put_def Let_def)

lemma length_alloc [simp]: "length (alloc m fs) = length fs"
  by (induction fs arbitrary: m) auto

lemma alloc_above: "P @ [I n] \<in> set (alloc m fs) \<Longrightarrow> m P < n"
proof (induction fs arbitrary: m)
  case Nil
  then show ?case by simp
next
  case (Cons a fs)
  obtain Q l where a: "a = (Q, l)" by (cases a)
  from Cons.prems a consider "P @ [I n] = Q @ [I (m Q + 1)]"
    | "P @ [I n] \<in> set (alloc (m(Q := m Q + 1)) fs)" by auto
  then show ?case
  proof cases
    case 1
    then show ?thesis by simp
  next
    case 2
    from Cons.IH [OF 2] show ?thesis by (simp split: if_splits)
  qed
qed

lemma alloc_shape: "K \<in> set (alloc m fs) \<Longrightarrow> \<exists>P n. K = P @ [I n] \<and> P \<in> fst ` set fs"
  by (induction fs arbitrary: m) force+

lemma distinct_alloc: "distinct (alloc m fs)"
proof (induction fs arbitrary: m)
  case Nil
  then show ?case by simp
next
  case (Cons a fs)
  obtain Q l where a: "a = (Q, l)" by (cases a)
  have "Q @ [I (m Q + 1)] \<notin> set (alloc (m(Q := m Q + 1)) fs)"
    using alloc_above [of Q "m Q + 1" "m(Q := m Q + 1)" fs] by auto
  with Cons.IH a show ?case by simp
qed

lemma alloc_nth:
  "j < length fs \<Longrightarrow>
     alloc m fs ! j =
       fst (fs ! j) @ [I (m (fst (fs ! j)) + 1 + int (length (filter (\<lambda>x. fst x = fst (fs ! j)) (take j fs))))]"
proof (induction fs arbitrary: m j)
  case Nil
  then show ?case by simp
next
  case (Cons a fs)
  obtain Q l where a: "a = (Q, l)" by (cases a)
  show ?case
  proof (cases j)
    case 0
    then show ?thesis using a by simp
  next
    case (Suc i)
    with Cons.prems have i: "i < length fs" by simp
    have ih: "alloc (m(Q := m Q + 1)) fs ! i =
        fst (fs ! i) @ [I ((m(Q := m Q + 1)) (fst (fs ! i)) + 1
          + int (length (filter (\<lambda>x. fst x = fst (fs ! i)) (take i fs))))]"
      by (rule Cons.IH [OF i])
    show ?thesis
      using a Suc by (simp add: ih)
  qed
qed


lemma set_update_subset: "set (AList.update k v al) \<subseteq> insert (k, v) (set al)"
  by (induction al) auto

lemma set_fold_put: "set (fold put kvs d) \<subseteq> set d \<union> set kvs"
proof (induction kvs arbitrary: d)
  case Nil
  then show ?case by simp
next
  case (Cons kv kvs)
  have "set (put kv d) \<subseteq> insert kv (set d)"
    using set_update_subset [of "fst kv" "snd kv" d] by (simp add: put_def)
  with Cons.IH [of "put kv d"] show ?case by auto
qed

lemma dict_item_Inr: "dict_item d k = Inr v \<longleftrightarrow> map_of d k = Some v"
  by (simp add: dict_item_def split: option.splits)

lemma block_loop_other:
  "block_loop sh ign ac bs r = Inr r' \<Longrightarrow> \<not> (K \<in> fst ` set bs \<and> K \<in> fst ` set ac) \<Longrightarrow>
     map_of r' K = map_of r K"
proof (induction bs arbitrary: r)
  case Nil
  then show ?case by simp
next
  case (Cons b bs)
  obtain p ls where b: "b = (p, ls)" by (cases b)
  show ?case
  proof (cases "ignored ign p")
    case True
    with Cons.prems b have "block_loop sh ign ac bs r = Inr r'" by simp
    from Cons.IH [OF this] Cons.prems(2) show ?thesis by auto
  next
    case False
    with Cons.prems(1) b obtain c where c: "map_of ac p = Some c"
      and rest: "block_loop sh ign ac bs (AList.update p (block_geom sh ls c) r) = Inr r'"
      by (auto simp: dict_item_Inr split: sum.splits)
    from c have "p \<in> fst ` set ac" by (metis domI dom_map_of_conv_image_fst)
    with Cons.prems(2) b have "K \<noteq> p" by auto
    moreover have "map_of r' K = map_of (AList.update p (block_geom sh ls c) r) K"
      using Cons.IH [OF rest] Cons.prems(2) by auto
    ultimately show ?thesis by (simp add: update_conv')
  qed
qed

lemma block_loop_at:
  "block_loop sh ign ac bs r = Inr r' \<Longrightarrow> distinct (map fst bs) \<Longrightarrow> (B, ls) \<in> set bs \<Longrightarrow>
     \<not> ignored ign B \<Longrightarrow> \<exists>c. map_of ac B = Some c \<and> map_of r' B = Some (block_geom sh ls c)"
proof (induction bs arbitrary: r)
  case Nil
  then show ?case by simp
next
  case (Cons b bs)
  obtain p ls' where b: "b = (p, ls')" by (cases b)
  show ?case
  proof (cases "p = B")
    case True
    with Cons.prems(2,3) b have ls: "ls' = ls" and notin: "B \<notin> fst ` set bs"
      by (auto simp: image_iff)
    from Cons.prems(1,4) b True obtain c where c: "map_of ac B = Some c"
      and rest: "block_loop sh ign ac bs (AList.update B (block_geom sh ls' c) r) = Inr r'"
      by (auto simp: dict_item_Inr split: sum.splits)
    have "map_of r' B = map_of (AList.update B (block_geom sh ls' c) r) B"
      using block_loop_other [OF rest] notin by blast
    with c ls show ?thesis by (simp add: update_conv')
  next
    case False
    with Cons.prems(3) b have mem: "(B, ls) \<in> set bs" by auto
    from Cons.prems(2) have d: "distinct (map fst bs)" by simp
    from Cons.prems(1) b obtain r2 where "block_loop sh ign ac bs r2 = Inr r'"
      by (auto split: if_splits sum.splits)
    from Cons.IH [OF this d mem Cons.prems(4)] show ?thesis .
  qed
qed

lemma block_loop_values:
  "block_loop sh ign ac bs r = Inr r' \<Longrightarrow> (K, g) \<in> set r' \<Longrightarrow>
     (K, g) \<in> set r \<or> (\<exists>ls c. (K, ls) \<in> set bs \<and> map_of ac K = Some c \<and> g = block_geom sh ls c)"
proof (induction bs arbitrary: r)
  case Nil
  then show ?case by simp
next
  case (Cons b bs)
  obtain p ls where b: "b = (p, ls)" by (cases b)
  show ?case
  proof (cases "ignored ign p")
    case True
    with Cons.prems b have "block_loop sh ign ac bs r = Inr r'" by simp
    from Cons.IH [OF this Cons.prems(2)] show ?thesis by auto
  next
    case False
    with Cons.prems(1) b obtain c where c: "map_of ac p = Some c"
      and rest: "block_loop sh ign ac bs (AList.update p (block_geom sh ls c) r) = Inr r'"
      by (auto simp: dict_item_Inr split: sum.splits)
    from Cons.IH [OF rest Cons.prems(2)] consider
      "(K, g) \<in> set (AList.update p (block_geom sh ls c) r)"
      | "\<exists>ls c. (K, ls) \<in> set bs \<and> map_of ac K = Some c \<and> g = block_geom sh ls c" by blast
    then show ?thesis
    proof cases
      case 1
      with set_update_subset [of p "block_geom sh ls c" r]
      have "(K, g) = (p, block_geom sh ls c) \<or> (K, g) \<in> set r" by auto
      with c b show ?thesis by auto
    next
      case 2
      then show ?thesis by auto
    qed
  qed
qed

lemma group_lines_keys: "fst ` set (group_lines al b) = fst ` set b \<union> take 3 ` fst ` set al"
proof (induction al arbitrary: b)
  case Nil
  then show ?case by simp
next
  case (Cons a al)
  obtain p l where a: "a = (p, l)" by (cases a)
  have "fst ` set (group_lines (a # al) b) =
      ({take 3 p} \<union> fst ` set b) \<union> take 3 ` fst ` set al"
    unfolding a group_lines.simps Cons.IH dom_update ..
  then show ?case using a by auto
qed

lemma group_lines_distinct: "distinct (map fst b) \<Longrightarrow> distinct (map fst (group_lines al b))"
  by (induction al arbitrary: b) (auto simp: distinct_update)

lemma group_lines_lines_of:
  "lines_of (group_lines al b) B = lines_of b B @ kept_lines al B"
proof (induction al arbitrary: b)
  case Nil
  then show ?case by (simp add: kept_lines_def)
next
  case (Cons a al)
  obtain p l where a: "a = (p, l)" by (cases a)
  have "lines_of (AList.update (take 3 p) (lines_of b (take 3 p) @ [l]) b) B =
      lines_of b B @ (if take 3 p = B then [l] else [])"
    by (simp add: lines_of_def update_conv')
  with Cons.IH [of "AList.update (take 3 p) (lines_of b (take 3 p) @ [l]) b"] a
  show ?case by (simp add: kept_lines_def)
qed

lemma group_lines_entry:
  "(K, ls) \<in> set (group_lines al []) \<Longrightarrow> ls = kept_lines al K \<and> K \<in> take 3 ` fst ` set al"
proof -
  assume mem: "(K, ls) \<in> set (group_lines al [])"
  have "distinct (map fst (group_lines al ([] :: (path, 'a list) dict)))"
    by (rule group_lines_distinct) simp
  with mem have "map_of (group_lines al []) K = Some ls" by simp
  then have "lines_of (group_lines al []) K = ls" by (simp add: lines_of_def)
  moreover have "lines_of (group_lines al []) K = kept_lines al K"
    using group_lines_lines_of [of al "[]" K] by (simp add: lines_of_def)
  moreover have "K \<in> fst ` set (group_lines al [])" using mem by force
  ultimately show ?thesis by (simp add: group_lines_keys)
qed

lemma group_lines_has:
  "(p, l) \<in> set al \<Longrightarrow> (take 3 p, kept_lines al (take 3 p)) \<in> set (group_lines al [])"
proof -
  assume "(p, l) \<in> set al"
  then have "take 3 p \<in> fst ` set (group_lines al [])"
    by (force simp: group_lines_keys)
  then obtain ls where "(take 3 p, ls) \<in> set (group_lines al [])" by auto
  with group_lines_entry [OF this] show ?thesis by simp
qed

lemma map_of_keep_rest:
  "map_of (keep_rest ac r) K = (case map_of r K of Some g \<Rightarrow> Some g | None \<Rightarrow> map_of ac K)"
proof -
  have 1: "map_of (filter (\<lambda>(k, c). k \<notin> fst ` set r) ac) K =
      (if K \<in> fst ` set r then None else map_of ac K)"
    by (induction ac) (simp_all split: prod.splits)
  have 2: "map_of r K = None \<longleftrightarrow> K \<notin> fst ` set r"
    by (simp add: map_of_eq_None_iff)
  show ?thesis
  proof (cases "map_of r K")
    case None
    with 2 have "K \<notin> fst ` set r" by simp
    with None 1 show ?thesis by (simp add: keep_rest_def map_add_def)
  next
    case (Some g)
    then show ?thesis by (simp add: keep_rest_def map_add_def)
  qed
qed


lemma max_ids_loop_max_suffix:
  "max_ids_loop ks (\<lambda>_. 0) = Inr m \<Longrightarrow> m P = max_suffix ks P"
  using max_ids_loop_Max [of ks "\<lambda>_. 0" m P] by (simp add: max_suffix_def)

lemma alloc_freed_path:
  "max_ids_loop ks (\<lambda>_. 0) = Inr m \<Longrightarrow> j < length fl \<Longrightarrow> alloc m fl ! j = freed_path ks fl j"
  by (simp add: alloc_nth freed_path_def Let_def max_ids_loop_max_suffix)

lemma alloc_fresh:
  assumes m: "max_ids_loop ks (\<lambda>_. 0) = Inr m" and K: "K \<in> set (alloc m fl)"
    and ks: "K \<in> set ks" and len: "length K \<le> 3"
  shows False
proof -
  from alloc_shape [OF K] obtain P n where Kd: "K = P @ [I n]" by blast
  with K have above: "m P < n" using alloc_above by blast
  from max_ids_loop_keys [OF m ks] obtain n' where l3: "3 \<le> length K"
    and n': "py_int (K ! 2) = Inr n'" and le: "n' \<le> m (take 2 K)" by blast
  from l3 len Kd have lp: "length P = 2" by simp
  then have "take 2 K = P" and "K ! 2 = I n" using Kd by (simp_all add: nth_append)
  with n' le above show False by simp
qed

lemma map_of_rev_zip:
  "distinct ks \<Longrightarrow> length ks = length vs \<Longrightarrow> j < length ks \<Longrightarrow>
     map_of (rev (zip ks vs)) (ks ! j) = Some (vs ! j)"
proof -
  assume d: "distinct ks" and l: "length ks = length vs" and j: "j < length ks"
  have "distinct (map fst (rev (zip ks vs)))"
    using d l by (simp add: rev_map [symmetric])
  moreover have "(ks ! j, vs ! j) \<in> set (rev (zip ks vs))"
    using l j by (auto simp: set_zip)
  ultimately show ?thesis by simp
qed

lemma map_of_rev_zip_None:
  "K \<notin> set ks \<Longrightarrow> map_of (rev (zip ks vs)) K = None"
  by (auto simp: map_of_eq_None_iff dest: set_zip_leftD)

subsection \<open>Ids of freed lines\<close>

text \<open>
  C4. When \<open>reliable_contours\<close> returns, the \<open>j\<close>-th freed line, predicting \<open>P\<close>, is
  found in the result at \<open>P + (m + 1 + c,)\<close>, where \<open>m\<close> is the maximum numeric suffix
  of the predicted-contour paths under \<open>P\<close> (0 if there is none) and \<open>c\<close> the number of
  freed lines before it that predict \<open>P\<close>: the first at \<open>m + 1\<close>, the second at
  \<open>m + 2\<close>, in the order of the list. The entry holds the line's own polygon, and no
  two freed lines share a path.
\<close>

theorem freed_ids_monotonic:
  assumes res: "reliable_contours sh ac al fl dl ign = (Inr r, d)" and j: "j < length fl"
  shows "map_of r (freed_path (map fst ac) fl j) = Some (image_space_polygon (snd (fl ! j)))
       \<and> (\<forall>i<length fl. i \<noteq> j \<longrightarrow> freed_path (map fst ac) fl i \<noteq> freed_path (map fst ac) fl j)"
proof -
  let ?ks = "map fst ac"
  from res obtain m where m: "max_ids_loop ?ks (\<lambda>_. 0) = Inr m"
    by (auto simp: reliable_contours_def split: sum.splits)
  let ?polys = "map (image_space_polygon \<circ> snd) fl"
  let ?r0 = "fold put (zip (alloc m fl) ?polys) []"
  from res m obtain r1 where bl: "block_loop sh ign ac (group_lines al []) ?r0 = Inr r1"
    and r: "r = keep_rest ac r1"
    by (auto simp: reliable_contours_def free_loop_fold split: sum.splits)
  let ?K = "freed_path ?ks fl j"
  have K: "?K = alloc m fl ! j" using alloc_freed_path [OF m j] by simp
  have Kin: "?K \<in> set (alloc m fl)" using K j by simp
  have "map_of ?r0 ?K = Some (?polys ! j)"
    using map_of_rev_zip [OF distinct_alloc, of m fl ?polys j] j
    by (simp add: map_of_fold_put K)
  moreover have "\<not> (?K \<in> fst ` set (group_lines al []) \<and> ?K \<in> fst ` set ac)"
  proof
    assume a: "?K \<in> fst ` set (group_lines al []) \<and> ?K \<in> fst ` set ac"
    then have "length ?K \<le> 3" by (auto simp: group_lines_keys)
    moreover from a have "?K \<in> set ?ks" by simp
    ultimately show False using alloc_fresh [OF m Kin] by blast
  qed
  ultimately have "map_of r1 ?K = Some (?polys ! j)"
    using block_loop_other [OF bl] by simp
  then have 1: "map_of r ?K = Some (image_space_polygon (snd (fl ! j)))"
    using j by (simp add: r map_of_keep_rest)
  have 2: "\<forall>i<length fl. i \<noteq> j \<longrightarrow> freed_path ?ks fl i \<noteq> ?K"
  proof (intro allI impI)
    fix i assume i: "i < length fl" and ij: "i \<noteq> j"
    have "alloc m fl ! i \<noteq> alloc m fl ! j"
      using distinct_alloc [of m fl] i j ij by (simp add: nth_eq_iff_index_eq)
    then show "freed_path ?ks fl i \<noteq> ?K"
      using alloc_freed_path [OF m i] K by simp
  qed
  from 1 2 show ?thesis by blast
qed

theorem freed_ids_monotonic_witness:
  "fst (reliable_contours strip_shapely ex_contours [] ex_free_lines [] None) =
     Inr [([S ''regions'', S ''TEXT'', I 4], [4, 5, 6]),
          ([S ''regions'', S ''TEXT'', I 5], [8, 9, 10]),
          ([S ''regions'', S ''TEXT'', S ''003''], [0, 1, 2])]
   \<and> 1 < length ex_free_lines
   \<and> freed_path (map fst ex_contours) ex_free_lines 1 = [S ''regions'', S ''TEXT'', I 5]
   \<and> map_of [([S ''regions'', S ''TEXT'', I 4], [4, 5, 6]),
              ([S ''regions'', S ''TEXT'', I 5], [8, 9, 10]),
              ([S ''regions'', S ''TEXT'', S ''003''], [0, 1, 2])]
        (freed_path (map fst ex_contours) ex_free_lines 1)
      = Some (image_space_polygon (snd (ex_free_lines ! 1)))"
proof -
  let ?X = "reliable_contours strip_shapely ex_contours [] ex_free_lines [] None"
  let ?R = "[([S ''regions'', S ''TEXT'', I 4], [4, 5, 6]),
             ([S ''regions'', S ''TEXT'', I 5], [8, 9, 10]),
             ([S ''regions'', S ''TEXT'', S ''003''], [0, 1, 2::int])]"
  have f: "fst ?X = Inr ?R" by code_simp
  then have h: "?X = (Inr ?R, snd ?X)" by (simp add: prod_eq_iff)
  have j: "1 < length ex_free_lines" by code_simp
  have p: "freed_path (map fst ex_contours) ex_free_lines 1 = [S ''regions'', S ''TEXT'', I 5]"
    by code_simp
  from freed_ids_monotonic [OF h j] f j p show ?thesis by blast
qed

subsection \<open>The caller's mapping of detected lines\<close>

text \<open>
  C10. \<open>reliable_contours\<close> changes the mapping \<open>detected_lines\<close> of its caller: for
  the \<open>j\<close>-th freed line, emitted at the new region path \<open>P + (new_id,)\<close>, the
  mapping gets the entry \<open>P + (new_id, 0)\<close> with that line, and every entry that was in
  the mapping is still there with the same line (also when a later step raises). The
  mappings are those of the caller: the block of every detected line, the first three
  components of its key, is a path of the predicted contours, and every freed line
  predicts a (predictor, class) pair.
\<close>

theorem detected_lines_frame:
  assumes blocks: "\<forall>K\<in>fst ` set dl. take 3 K \<in> fst ` set ac"
    and pairs: "\<forall>x\<in>set fl. length (fst x) = 2"
  shows "(\<forall>K v. map_of dl K = Some v \<longrightarrow>
            map_of (snd (reliable_contours sh ac al fl dl ign)) K = Some v)
       \<and> (\<forall>m. max_ids_loop (map fst ac) (\<lambda>_. 0) = Inr m \<longrightarrow>
            (\<forall>j<length fl. map_of (snd (reliable_contours sh ac al fl dl ign))
               (freed_path (map fst ac) fl j @ [I 0]) = Some (snd (fl ! j))))"
proof (cases "max_ids_loop (map fst ac) (\<lambda>_. 0)")
  case (Inl e)
  then have "snd (reliable_contours sh ac al fl dl ign) = dl"
    by (simp add: reliable_contours_def)
  with Inl show ?thesis by simp
next
  case (Inr m)
  let ?ks = "map fst ac"
  let ?keys = "map (\<lambda>p. p @ [I 0]) (alloc m fl)"
  let ?d = "fold put (zip ?keys (map snd fl)) dl"
  have d: "snd (reliable_contours sh ac al fl dl ign) = ?d"
    using Inr by (simp add: reliable_contours_def free_loop_fold split: sum.splits)
  have dist: "distinct ?keys"
    using distinct_alloc [of m fl] by (simp add: distinct_map inj_on_def)
  have ins: "map_of ?d (freed_path ?ks fl j @ [I 0]) = Some (snd (fl ! j))"
    if j: "j < length fl" for j
  proof -
    have "?keys ! j = freed_path ?ks fl j @ [I 0]"
      using alloc_freed_path [OF Inr j] j by simp
    moreover have "map_of (rev (zip ?keys (map snd fl))) (?keys ! j) = Some (map snd fl ! j)"
      by (rule map_of_rev_zip [OF dist]) (use j in simp_all)
    ultimately show ?thesis using j by (simp add: map_of_fold_put)
  qed
  have old: "map_of ?d K = Some v" if K: "map_of dl K = Some v" for K v
  proof -
    have "K \<notin> set ?keys"
    proof
      assume "K \<in> set ?keys"
      then obtain Q where Q: "Q \<in> set (alloc m fl)" and KQ: "K = Q @ [I 0]" by auto
      from alloc_shape [OF Q] obtain P n where Qd: "Q = P @ [I n]" and P: "P \<in> fst ` set fl"
        by blast
      from P pairs have "length P = 2" by auto
      with Qd have lenQ: "length Q \<le> 3" and t3: "take 3 K = Q" using KQ by simp_all
      from K have "K \<in> fst ` set dl" by (metis domI dom_map_of_conv_image_fst)
      with blocks t3 have "Q \<in> set ?ks" by auto
      from alloc_fresh [OF Inr Q this lenQ] show False .
    qed
    then show ?thesis
      using K by (simp add: map_of_fold_put map_add_def map_of_rev_zip_None)
  qed
  show ?thesis unfolding d using ins old Inr by auto
qed

theorem detected_lines_frame_witness:
  "list_all (\<lambda>K. take 3 K \<in> fst ` set ex_contours) (map fst ex_detected)
   \<and> list_all (\<lambda>x. length (fst x) = 2) ex_free_lines
   \<and> (\<exists>m. max_ids_loop (map fst ex_contours) (\<lambda>_. 0) = Inr m)
   \<and> freed_path (map fst ex_contours) ex_free_lines 1 @ [I 0] = [S ''regions'', S ''TEXT'', I 5, I 0]
   \<and> map_of (snd (reliable_contours strip_shapely ex_contours [] ex_free_lines ex_detected None))
        [S ''regions'', S ''TEXT'', I 5, I 0] = Some (snd (ex_free_lines ! 1))
   \<and> map_of ex_detected [S ''regions'', S ''TEXT'', S ''003'', I 0] = Some (snd (hd ex_detected))
   \<and> map_of (snd (reliable_contours strip_shapely ex_contours [] ex_free_lines ex_detected None))
        [S ''regions'', S ''TEXT'', S ''003'', I 0] = Some (snd (hd ex_detected))"
proof -
  have b: "\<forall>K\<in>fst ` set ex_detected. take 3 K \<in> fst ` set ex_contours"
    by (simp add: ex_detected_def ex_contours_def)
  have p: "\<forall>x\<in>set ex_free_lines. length (fst x) = 2"
    by (simp add: ex_free_lines_def)
  have "case max_ids_loop (map fst ex_contours) (\<lambda>_. 0) of Inl e \<Rightarrow> False | Inr m \<Rightarrow> True"
    by code_simp
  then obtain m where m: "max_ids_loop (map fst ex_contours) (\<lambda>_. 0) = Inr m"
    by (auto split: sum.splits)
  have j: "1 < length ex_free_lines" by code_simp
  have fp: "freed_path (map fst ex_contours) ex_free_lines 1 @ [I 0]
      = [S ''regions'', S ''TEXT'', I 5, I 0]"
    by code_simp
  have o: "map_of ex_detected [S ''regions'', S ''TEXT'', S ''003'', I 0] = Some (snd (hd ex_detected))"
    by (simp add: ex_detected_def)
  note fr = detected_lines_frame [OF b p, of strip_shapely "[]" None]
  from fr o have o': "map_of (snd (reliable_contours strip_shapely ex_contours [] ex_free_lines ex_detected None))
        [S ''regions'', S ''TEXT'', S ''003'', I 0] = Some (snd (hd ex_detected))"
    by blast
  from fr m j have "map_of (snd (reliable_contours strip_shapely ex_contours [] ex_free_lines ex_detected None))
        (freed_path (map fst ex_contours) ex_free_lines 1 @ [I 0]) = Some (snd (ex_free_lines ! 1))"
    by blast
  with fp have n': "map_of (snd (reliable_contours strip_shapely ex_contours [] ex_free_lines ex_detected None))
        [S ''regions'', S ''TEXT'', I 5, I 0] = Some (snd (ex_free_lines ! 1))"
    by simp
  have b': "list_all (\<lambda>K. take 3 K \<in> fst ` set ex_contours) (map fst ex_detected)"
    using b by (simp add: list_all_iff)
  have p': "list_all (\<lambda>x. length (fst x) = 2) ex_free_lines"
    using p by (simp add: list_all_iff)
  from b' p' m fp n' o o' show ?thesis by blast
qed

subsection \<open>The contour of a block with kept lines\<close>

lemma reliable_block_entry:
  assumes res: "reliable_contours sh ac al fl dl ign = (Inr r, d)"
    and kept: "(p, l) \<in> set al" and ni: "\<not> ignored ign (take 3 p)"
  shows "\<exists>c. map_of ac (take 3 p) = Some c
           \<and> map_of r (take 3 p) = Some (block_geom sh (kept_lines al (take 3 p)) c)"
proof -
  from res obtain m where m: "max_ids_loop (map fst ac) (\<lambda>_. 0) = Inr m"
    by (auto simp: reliable_contours_def split: sum.splits)
  from res m obtain r0 r1 where bl: "block_loop sh ign ac (group_lines al []) r0 = Inr r1"
    and r: "r = keep_rest ac r1"
    by (auto simp: reliable_contours_def split: sum.splits prod.splits)
  have dist: "distinct (map fst (group_lines al ([] :: (path, 'a line list) dict)))"
    by (rule group_lines_distinct) simp
  from block_loop_at [OF bl dist group_lines_has [OF kept] ni]
  obtain c where c: "map_of ac (take 3 p) = Some c"
    and g: "map_of r1 (take 3 p) = Some (block_geom sh (kept_lines al (take 3 p)) c)" by blast
  from g have "map_of r (take 3 p) = Some (block_geom sh (kept_lines al (take 3 p)) c)"
    by (simp add: r map_of_keep_rest)
  with c show ?thesis by blast
qed

text \<open>
  C6, as stated, fails: when the intersection of the lines' hull with the contour is not
  a \<open>Polygon\<close>, the block gets the convex hull of the intersection, which may leave the
  contour. Here the contour has two parts and the line covers both and the gap between
  them; the result covers the gap. (The strip has no connected contour that is not
  convex; in the plane a U-shaped contour with a line across its two arms gives the same.)
\<close>

theorem block_contour_subset_counterexample:
  "fst (reliable_contours strip_shapely split_contours wide_lines [] wide_lines None)
     = Inr [([S ''regions'', S ''TEXT'', S ''0''], [0, 1, 2, 3, 4, 5, 6, 7, 8])]
   \<and> map_of split_contours [S ''regions'', S ''TEXT'', S ''0''] = Some [0, 1, 2, 6, 7, 8]
   \<and> \<not> set [0, 1, 2, 3, 4, 5, 6, 7, 8 :: int] \<subseteq> set [0, 1, 2, 6, 7, 8]"
  by code_simp

text \<open>
  C6, amended. When \<open>reliable_contours\<close> returns, a block path with at least one kept
  line that is not ignored has an entry in the result: the intersection of the lines'
  hull with the block's contour, contained in the contour, when that intersection is a
  \<open>Polygon\<close>, and the convex hull of the intersection otherwise. Containment is that of
  the point sets \<open>pts\<close>, for any geometry engine whose intersection lies in its second
  argument. Freed lines do not matter.
\<close>

theorem block_contour_subset:
  assumes res: "reliable_contours sh ac al fl dl ign = (Inr r, d)"
    and kept: "(p, l) \<in> set al" and ni: "\<not> ignored ign (take 3 p)"
    and law: "\<And>a b. pts (intersection sh a b) \<subseteq> pts b"
  shows "\<exists>c g. map_of ac (take 3 p) = Some c \<and> map_of r (take 3 p) = Some g
           \<and> (let cut = intersection sh
                   (convex_hull sh (cascaded_union sh
                      (map image_space_polygon (kept_lines al (take 3 p))))) c
              in if geom_type sh cut = ''Polygon'' then g = cut \<and> pts g \<subseteq> pts c
                 else g = convex_hull sh cut)"
proof -
  from reliable_block_entry [OF res kept ni] obtain c where c: "map_of ac (take 3 p) = Some c"
    and g: "map_of r (take 3 p) = Some (block_geom sh (kept_lines al (take 3 p)) c)" by blast
  have "let cut = intersection sh
                   (convex_hull sh (cascaded_union sh
                      (map image_space_polygon (kept_lines al (take 3 p))))) c
        in if geom_type sh cut = ''Polygon''
           then block_geom sh (kept_lines al (take 3 p)) c = cut
                \<and> pts (block_geom sh (kept_lines al (take 3 p)) c) \<subseteq> pts c
           else block_geom sh (kept_lines al (take 3 p)) c = convex_hull sh cut"
    using law by (simp add: block_geom_def Let_def)
  with c g show ?thesis by blast
qed

theorem block_contour_subset_witness:
  "fst (reliable_contours strip_shapely ex_contours inner_lines [] inner_lines None)
     = Inr [([S ''regions'', S ''TEXT'', S ''003''], [0, 1, 2])]
   \<and> hd inner_lines \<in> set inner_lines
   \<and> \<not> ignored None (take 3 (fst (hd inner_lines)))
   \<and> (\<forall>a b. set (intersection strip_shapely a b) \<subseteq> set b)
   \<and> (\<exists>c g. map_of ex_contours [S ''regions'', S ''TEXT'', S ''003''] = Some c
          \<and> map_of [([S ''regions'', S ''TEXT'', S ''003''], [0, 1, 2])]
               [S ''regions'', S ''TEXT'', S ''003''] = Some g
          \<and> g = [0, 1, 2] \<and> set g \<subseteq> set c)"
proof -
  let ?X = "reliable_contours strip_shapely ex_contours inner_lines [] inner_lines None"
  let ?R = "[([S ''regions'', S ''TEXT'', S ''003''], [0, 1, 2::int])]"
  have f: "fst ?X = Inr ?R" by code_simp
  then have h: "?X = (Inr ?R, snd ?X)" by (simp add: prod_eq_iff)
  have k: "(fst (hd inner_lines), snd (hd inner_lines)) \<in> set inner_lines"
    by (simp add: inner_lines_def)
  have ni: "\<not> ignored None (take 3 (fst (hd inner_lines)))" by (simp add: ignored_def)
  have law: "\<And>a b. set (intersection strip_shapely a b) \<subseteq> set b"
    by (auto simp: strip_shapely_def strip_intersection_def)
  have t: "take 3 (fst (hd inner_lines)) = [S ''regions'', S ''TEXT'', S ''003'']"
    by (simp add: inner_lines_def)
  have e: "map_of ex_contours [S ''regions'', S ''TEXT'', S ''003''] = Some [0, 1, 2]"
    by (simp add: ex_contours_def)
  from block_contour_subset [where pts = set, OF h k ni law] f k ni law t e show ?thesis
    by (auto simp: Let_def split: if_splits)
qed

subsection \<open>The geometries of the result\<close>

lemma write_contours_all:
  "write_contours sh r (msgs, zf) =
     (msgs @ map (\<lambda>x. (fst x, geom_type sh (snd x))) (filter (\<lambda>x. logged sh (snd x)) r), zf @ r)"
  by (induction r arbitrary: msgs zf) (auto simp: logged_def)

text \<open>
  C2, as stated, fails: the type is tested once, before the fallback, and the convex hull
  of a segment is a segment. A block \<open>[0, 1] \<times> [0, 1]\<close> with one line
  \<open>[1, 2] \<times> [0, 1]\<close> gets the shared edge, a \<open>LineString\<close> that is not empty. The
  writing loop reports it to the log and writes it.
\<close>

theorem reliable_geometries_counterexample:
  "fst (reliable_contours strip_shapely touch_contours touch_lines [] touch_lines None)
     = Inr [([S ''regions'', S ''TEXT'', S ''0''], [2])]
   \<and> geom_type strip_shapely [2] = ''LineString''
   \<and> \<not> is_empty strip_shapely [2]
   \<and> write_contours strip_shapely [([S ''regions'', S ''TEXT'', S ''0''], [2])] ([], [])
       = ([([S ''regions'', S ''TEXT'', S ''0''], ''LineString'')],
          [([S ''regions'', S ''TEXT'', S ''0''], [2])])"
  by code_simp

text \<open>
  C2, amended. Every geometry in the mapping that \<open>reliable_contours\<close> returns is the
  polygon of a freed line, or, for a block with kept lines, the intersection of the
  lines' hull with the block's contour when that intersection has type \<open>Polygon\<close> and
  the convex hull of the intersection otherwise (whatever the type of that hull), or a
  predicted contour as it came in. It need not be empty or a \<open>Polygon\<close>. When the
  mapping is written, nothing is raised: every entry is written, and exactly the entries
  that are neither a \<open>Polygon\<close> nor empty are reported to the log, with their type.
\<close>

theorem reliable_geometries:
  assumes res: "reliable_contours sh ac al fl dl ign = (Inr r, d)"
    and g: "map_of r K = Some g"
  shows "((\<exists>j<length fl. g = image_space_polygon (snd (fl ! j)))
        \<or> (\<exists>c. map_of ac K = Some c \<and> kept_lines al K \<noteq> []
              \<and> (let cut = intersection sh
                      (convex_hull sh (cascaded_union sh
                         (map image_space_polygon (kept_lines al K)))) c
                 in g = (if geom_type sh cut = ''Polygon'' then cut else convex_hull sh cut)))
        \<or> (K, g) \<in> set ac)
       \<and> snd (write_contours sh r ([], [])) = r
       \<and> fst (write_contours sh r ([], []))
           = map (\<lambda>x. (fst x, geom_type sh (snd x))) (filter (\<lambda>x. logged sh (snd x)) r)"
proof -
  from res obtain m where m: "max_ids_loop (map fst ac) (\<lambda>_. 0) = Inr m"
    by (auto simp: reliable_contours_def split: sum.splits)
  let ?polys = "map (image_space_polygon \<circ> snd) fl"
  let ?r0 = "fold put (zip (alloc m fl) ?polys) []"
  from res m obtain r1 where bl: "block_loop sh ign ac (group_lines al []) ?r0 = Inr r1"
    and r: "r = keep_rest ac r1"
    by (auto simp: reliable_contours_def free_loop_fold split: sum.splits)
  from g have "(K, g) \<in> set r" by (rule map_of_SomeD)
  then consider "(K, g) \<in> set r1" | "(K, g) \<in> set ac"
    by (auto simp: r keep_rest_def)
  then have prov: "(\<exists>j<length fl. g = image_space_polygon (snd (fl ! j)))
        \<or> (\<exists>c. map_of ac K = Some c \<and> kept_lines al K \<noteq> []
              \<and> (let cut = intersection sh
                      (convex_hull sh (cascaded_union sh
                         (map image_space_polygon (kept_lines al K)))) c
                 in g = (if geom_type sh cut = ''Polygon'' then cut else convex_hull sh cut)))
        \<or> (K, g) \<in> set ac"
  proof cases
    case 1
    from block_loop_values [OF bl 1] consider "(K, g) \<in> set ?r0"
      | ls c where "(K, ls) \<in> set (group_lines al [])" "map_of ac K = Some c"
          "g = block_geom sh ls c" by blast
    then show ?thesis
    proof cases
      case 1
      with set_fold_put [of "zip (alloc m fl) ?polys" "[]"]
      have "(K, g) \<in> set (zip (alloc m fl) ?polys)" by auto
      then have "g \<in> set ?polys" by (rule set_zip_rightD)
      then obtain j where "j < length fl" "g = image_space_polygon (snd (fl ! j))"
        by (auto simp: in_set_conv_nth)
      then show ?thesis by blast
    next
      case 2
      from group_lines_entry [OF 2(1)] have ls: "ls = kept_lines al K"
        and "K \<in> take 3 ` fst ` set al" by simp_all
      then obtain x where "x \<in> set al" "take 3 (fst x) = K" by auto
      then have ne: "kept_lines al K \<noteq> []"
        by (auto simp: kept_lines_def filter_empty_conv)
      have "let cut = intersection sh
                      (convex_hull sh (cascaded_union sh
                         (map image_space_polygon (kept_lines al K)))) c
            in g = (if geom_type sh cut = ''Polygon'' then cut else convex_hull sh cut)"
        using 2(3) ls by (simp add: block_geom_def Let_def)
      with 2(2) ne show ?thesis by blast
    qed
  next
    case 2
    then show ?thesis by blast
  qed
  have w: "write_contours sh r ([], []) =
     (map (\<lambda>x. (fst x, geom_type sh (snd x))) (filter (\<lambda>x. logged sh (snd x)) r), r)"
    using write_contours_all [of sh r "[]" "[]"] by simp
  from prov w show ?thesis by simp
qed

theorem reliable_geometries_witness:
  "fst (reliable_contours strip_shapely split_contours wide_lines [] wide_lines None)
     = Inr [([S ''regions'', S ''TEXT'', S ''0''], [0, 1, 2, 3, 4, 5, 6, 7, 8])]
   \<and> map_of [([S ''regions'', S ''TEXT'', S ''0''], [0, 1, 2, 3, 4, 5, 6, 7, 8 :: int])]
        [S ''regions'', S ''TEXT'', S ''0''] = Some [0, 1, 2, 3, 4, 5, 6, 7, 8]
   \<and> (\<exists>c. map_of split_contours [S ''regions'', S ''TEXT'', S ''0''] = Some c
         \<and> kept_lines wide_lines [S ''regions'', S ''TEXT'', S ''0''] \<noteq> []
         \<and> (let cut = intersection strip_shapely
                 (convex_hull strip_shapely (cascaded_union strip_shapely
                    (map image_space_polygon (kept_lines wide_lines [S ''regions'', S ''TEXT'', S ''0''])))) c
            in cut = [0, 1, 2, 6, 7, 8] \<and> geom_type strip_shapely cut = ''MultiPolygon''
               \<and> [0, 1, 2, 3, 4, 5, 6, 7, 8] = convex_hull strip_shapely cut))
   \<and> snd (write_contours strip_shapely
             [([S ''regions'', S ''TEXT'', S ''0''], [0, 1, 2, 3, 4, 5, 6, 7, 8])] ([], []))
       = [([S ''regions'', S ''TEXT'', S ''0''], [0, 1, 2, 3, 4, 5, 6, 7, 8])]"
proof -
  let ?X = "reliable_contours strip_shapely split_contours wide_lines [] wide_lines None"
  let ?g = "[0, 1, 2, 3, 4, 5, 6, 7, 8 :: int]"
  let ?R = "[([S ''regions'', S ''TEXT'', S ''0''], ?g)]"
  let ?K = "[S ''regions'', S ''TEXT'', S ''0'']"
  have f: "fst ?X = Inr ?R" by code_simp
  then have h: "?X = (Inr ?R, snd ?X)" by (simp add: prod_eq_iff)
  have g: "map_of ?R ?K = Some ?g" by simp
  have c: "map_of split_contours ?K = Some [0, 1, 2, 6, 7, 8]" by (simp add: split_contours_def)
  have n: "\<not> (\<exists>j<length ([] :: (path \<times> strip_geom line) list). P j)" for P by simp
  have a: "(?K, ?g) \<notin> set split_contours" by (simp add: split_contours_def)
  have cut: "intersection strip_shapely
                 (convex_hull strip_shapely (cascaded_union strip_shapely
                    (map image_space_polygon (kept_lines wide_lines ?K)))) [0, 1, 2, 6, 7, 8]
             = [0, 1, 2, 6, 7, 8]" by code_simp
  have ty: "geom_type strip_shapely [0, 1, 2, 6, 7, 8] = ''MultiPolygon''" by code_simp
  from reliable_geometries [OF h g] n a c
  have 1: "kept_lines wide_lines ?K \<noteq> []
      \<and> (let cut = intersection strip_shapely
                 (convex_hull strip_shapely (cascaded_union strip_shapely
                    (map image_space_polygon (kept_lines wide_lines ?K)))) [0, 1, 2, 6, 7, 8]
         in ?g = (if geom_type strip_shapely cut = ''Polygon'' then cut
                  else convex_hull strip_shapely cut))"
    and 2: "snd (write_contours strip_shapely ?R ([], [])) = ?R"
    by auto
  from 1 cut ty have 3: "kept_lines wide_lines ?K \<noteq> []
      \<and> ?g = convex_hull strip_shapely [0, 1, 2, 6, 7, 8]"
    by (simp add: Let_def)
  from f g c cut ty 2 3 show ?thesis by (simp add: Let_def)
qed

section \<open>Properties of the line reclassifier\<close>

lemma reclassify_lines_other:
  "take 3 K \<noteq> [pn, cn, bid] \<Longrightarrow>
     map_of (fst (reclassify_lines thr ct pn cn bid i0 ls (dl, fl))) K = map_of dl K"
  by (induction ls arbitrary: i0 dl fl) (auto simp: update_conv')

lemma reclassify_lines_below:
  "n < int i0 \<Longrightarrow>
     map_of (fst (reclassify_lines thr ct pn cn bid i0 ls (dl, fl))) [pn, cn, bid, I n]
       = map_of dl [pn, cn, bid, I n]"
  by (induction ls arbitrary: i0 dl fl) (auto simp: update_conv')

lemma reclassify_lines_at:
  "i < length ls \<Longrightarrow>
     map_of (fst (reclassify_lines thr ct pn cn bid i0 ls (dl, fl))) [pn, cn, bid, I (int (i0 + i))]
       = (if line_error ct pn cn bid (ls ! i) > thr then map_of dl [pn, cn, bid, I (int (i0 + i))]
          else Some (ls ! i))"
proof (induction ls arbitrary: i0 i dl fl)
  case Nil
  then show ?case by simp
next
  case (Cons l ls)
  show ?case
  proof (cases i)
    case 0
    then show ?thesis
      using reclassify_lines_below [of "int i0" "Suc i0" thr ct pn cn bid ls]
      by (simp add: update_conv')
  next
    case (Suc k)
    with Cons.prems have k: "k < length ls" by simp
    have ne: "int (i0 + Suc k) \<noteq> int i0" by simp
    show ?thesis
      using Cons.IH [OF k, of "Suc i0"] Suc ne by (simp add: update_conv')
  qed
qed

lemma reclassify_lines_free:
  "snd (reclassify_lines thr ct pn cn bid i0 ls (dl, fl))
     = fl @ map (\<lambda>l. (predicted_path l, l)) (filter (\<lambda>l. line_error ct pn cn bid l > thr) ls)"
  by (induction ls arbitrary: i0 dl fl) auto

lemma reclassify_blocks_other:
  "reclassify_blocks thr ct bs st = Inr st' \<Longrightarrow> \<forall>b\<in>set bs. take 3 (fst b) \<noteq> take 3 K \<Longrightarrow>
     map_of (fst st') K = map_of (fst st) K"
proof (induction bs arbitrary: st)
  case Nil
  then show ?case by simp
next
  case (Cons b bs)
  obtain parts lines where b: "b = (parts, lines)" by (cases b)
  obtain dl fl where st: "st = (dl, fl)" by (cases st)
  from Cons.prems(1) b have len: "3 \<le> length parts"
    and rest: "reclassify_blocks thr ct bs
        (reclassify_lines thr ct (parts ! 0) (parts ! 1) (parts ! 2) 0 lines st) = Inr st'"
    by (auto split: if_splits)
  from len have t3: "take 3 parts = [parts ! 0, parts ! 1, parts ! 2]"
    by (cases parts; cases "tl parts"; cases "tl (tl parts)") auto
  from Cons.prems(2) b have "take 3 K \<noteq> take 3 parts" by auto
  with t3 have "map_of (fst (reclassify_lines thr ct (parts ! 0) (parts ! 1) (parts ! 2) 0 lines (dl, fl))) K
      = map_of dl K"
    using reclassify_lines_other by metis
  moreover have "map_of (fst st') K =
      map_of (fst (reclassify_lines thr ct (parts ! 0) (parts ! 1) (parts ! 2) 0 lines st)) K"
    using Cons.IH [OF rest] Cons.prems(2) by simp
  ultimately show ?case using st by simp
qed

lemma reclassify_blocks_free_mono:
  "reclassify_blocks thr ct bs st = Inr st' \<Longrightarrow> set (snd st) \<subseteq> set (snd st')"
proof (induction bs arbitrary: st)
  case Nil
  then show ?case by simp
next
  case (Cons b bs)
  obtain parts lines where b: "b = (parts, lines)" by (cases b)
  obtain dl fl where st: "st = (dl, fl)" by (cases st)
  from Cons.prems(1) b have
    rest: "reclassify_blocks thr ct bs
        (reclassify_lines thr ct (parts ! 0) (parts ! 1) (parts ! 2) 0 lines st) = Inr st'"
    by (auto split: if_splits)
  from Cons.IH [OF rest] show ?case
    using st by (auto simp: reclassify_lines_free)
qed

lemma reclassify_blocks_len:
  "reclassify_blocks thr ct bs st = Inr st' \<Longrightarrow> (parts, lines) \<in> set bs \<Longrightarrow> 3 \<le> length parts"
proof (induction bs arbitrary: st)
  case Nil
  then show ?case by simp
next
  case (Cons b bs)
  obtain parts' lines' where b: "b = (parts', lines')" by (cases b)
  from Cons.prems(1) b have len: "3 \<le> length parts'"
    and rest: "reclassify_blocks thr ct bs
        (reclassify_lines thr ct (parts' ! 0) (parts' ! 1) (parts' ! 2) 0 lines' st) = Inr st'"
    by (auto split: if_splits)
  show ?case
  proof (cases "(parts, lines) = b")
    case True
    with b len show ?thesis by simp
  next
    case False
    with Cons.prems(2) have "(parts, lines) \<in> set bs" by auto
    from Cons.IH [OF rest this] show ?thesis .
  qed
qed

lemma reclassify_blocks_entry:
  assumes "reclassify_blocks thr ct bs st = Inr st'"
    and "distinct (map (\<lambda>b. take 3 (fst b)) bs)"
    and "(parts, lines) \<in> set bs" and "i < length lines"
  shows "(if line_error ct (parts ! 0) (parts ! 1) (parts ! 2) (lines ! i) > thr
          then map_of (fst st') [parts ! 0, parts ! 1, parts ! 2, I (int i)]
                 = map_of (fst st) [parts ! 0, parts ! 1, parts ! 2, I (int i)]
               \<and> (predicted_path (lines ! i), lines ! i) \<in> set (snd st')
          else map_of (fst st') [parts ! 0, parts ! 1, parts ! 2, I (int i)] = Some (lines ! i))"
  using assms
proof (induction bs arbitrary: st)
  case Nil
  then show ?case by simp
next
  case (Cons b bs)
  obtain parts' lines' where b: "b = (parts', lines')" by (cases b)
  obtain dl fl where st: "st = (dl, fl)" by (cases st)
  let ?K = "[parts ! 0, parts ! 1, parts ! 2, I (int i)]"
  let ?st1 = "reclassify_lines thr ct (parts' ! 0) (parts' ! 1) (parts' ! 2) 0 lines' st"
  from Cons.prems(1) b have len: "3 \<le> length parts'"
    and rest: "reclassify_blocks thr ct bs ?st1 = Inr st'"
    by (auto split: if_splits)
  from len have t3: "take 3 parts' = [parts' ! 0, parts' ! 1, parts' ! 2]"
    by (cases parts'; cases "tl parts'"; cases "tl (tl parts')") auto
  show ?case
  proof (cases "(parts, lines) = b")
    case True
    with b have eq: "parts' = parts" "lines' = lines" by simp_all
    from Cons.prems(2) b eq have "\<forall>c\<in>set bs. take 3 (fst c) \<noteq> take 3 parts" by force
    moreover have "take 3 ?K = take 3 parts" using t3 eq by simp
    ultimately have keep: "map_of (fst st') ?K = map_of (fst ?st1) ?K"
      using reclassify_blocks_other [OF rest, of ?K] by simp
    have at: "map_of (fst ?st1) ?K =
        (if line_error ct (parts ! 0) (parts ! 1) (parts ! 2) (lines ! i) > thr
         then map_of dl ?K else Some (lines ! i))"
      using reclassify_lines_at [OF Cons.prems(4), of thr ct "parts ! 0" "parts ! 1" "parts ! 2" 0 dl fl]
      by (simp add: st eq)
    have fr: "line_error ct (parts ! 0) (parts ! 1) (parts ! 2) (lines ! i) > thr \<Longrightarrow>
        (predicted_path (lines ! i), lines ! i) \<in> set (snd st')"
    proof -
      assume gt: "line_error ct (parts ! 0) (parts ! 1) (parts ! 2) (lines ! i) > thr"
      have "(predicted_path (lines ! i), lines ! i) \<in> set (snd ?st1)"
        using gt Cons.prems(4) by (auto simp: st eq reclassify_lines_free)
      with reclassify_blocks_free_mono [OF rest] show ?thesis by blast
    qed
    show ?thesis using keep at fr st by auto
  next
    case False
    with Cons.prems(3) have mem: "(parts, lines) \<in> set bs" by auto
    from Cons.prems(2) have d: "distinct (map (\<lambda>b. take 3 (fst b)) bs)" by simp
    from Cons.prems(2) mem b have ne: "take 3 parts' \<noteq> take 3 parts" by force
    have t3K: "take 3 ?K = [parts ! 0, parts ! 1, parts ! 2]" by simp
    have lenp: "3 \<le> length parts"
      by (rule reclassify_blocks_len [OF rest mem])
    then have "take 3 parts = [parts ! 0, parts ! 1, parts ! 2]"
      by (cases parts; cases "tl parts"; cases "tl (tl parts)") auto
    with ne t3 have "take 3 ?K \<noteq> [parts' ! 0, parts' ! 1, parts' ! 2]" by auto
    then have "map_of (fst ?st1) ?K = map_of dl ?K"
      using reclassify_lines_other [of ?K] by (simp add: st)
    with Cons.IH [OF rest d mem Cons.prems(4)] st show ?thesis
      by (auto split: if_splits)
  qed
qed

subsection \<open>The ids of kept lines\<close>

text \<open>
  C5, as stated, fails: \<open>line_id\<close> comes from \<open>enumerate(lines)\<close>, the position among
  all detected lines of the block, not among the kept ones. When the first of two lines
  is freed, the kept line has id 1 and there is no id 0.
\<close>

theorem kept_line_ids_counterexample:
  "reclassify (1 / 2) no_columns [([S ''regions'', S ''TEXT'', S ''0''], [bad_line, good_line])]
     = Inr ([([S ''regions'', S ''TEXT'', S ''0'', I 1], good_line)],
            [([S ''regions'', S ''ILLUSTRATION''], bad_line)])"
  by (simp add: reclassify_def line_error_def good_line_def bad_line_def strip_line_def)

text \<open>
  C5, amended. When the reclassifier returns, for every block and every line of it at
  position \<open>i\<close> of the block's detected lines (from 0, in detector order): if its error
  is at most the threshold, the line is kept under \<open>(predictor, class, block_id, i)\<close>;
  otherwise that path has no entry and the line is in the freed list under its own
  predicted path. So the ids of the kept lines of a block increase, with a gap at every
  freed line. Blocks are told apart by their first three components.
\<close>

theorem kept_line_ids:
  assumes "reclassify thr table_columns blocks = Inr (dl, fl)"
    and "distinct (map (\<lambda>b. take 3 (fst b)) blocks)"
    and "(parts, lines) \<in> set blocks" and "i < length lines"
  shows "if line_error (c_tables_of table_columns) (parts ! 0) (parts ! 1) (parts ! 2) (lines ! i) \<le> thr
         then map_of dl [parts ! 0, parts ! 1, parts ! 2, I (int i)] = Some (lines ! i)
         else map_of dl [parts ! 0, parts ! 1, parts ! 2, I (int i)] = None
              \<and> (predicted_path (lines ! i), lines ! i) \<in> set fl"
  using reclassify_blocks_entry [OF assms(1) [unfolded reclassify_def] assms(2-4)]
  by (auto split: if_splits)

theorem kept_line_ids_witness:
  "reclassify (1 / 2) no_columns [([S ''regions'', S ''TEXT'', S ''0''], [bad_line, good_line])]
     = Inr ([([S ''regions'', S ''TEXT'', S ''0'', I 1], good_line)],
            [([S ''regions'', S ''ILLUSTRATION''], bad_line)])
   \<and> line_error (c_tables_of no_columns) (S ''regions'') (S ''TEXT'') (S ''0'') good_line \<le> 1 / 2
   \<and> map_of [([S ''regions'', S ''TEXT'', S ''0'', I 1], good_line)]
        [S ''regions'', S ''TEXT'', S ''0'', I 1] = Some good_line"
proof -
  let ?bs = "[([S ''regions'', S ''TEXT'', S ''0''], [bad_line, good_line])]"
  have r: "reclassify (1 / 2) no_columns ?bs
     = Inr ([([S ''regions'', S ''TEXT'', S ''0'', I 1], good_line)],
            [([S ''regions'', S ''ILLUSTRATION''], bad_line)])"
    by (simp add: reclassify_def line_error_def good_line_def bad_line_def strip_line_def)
  have d: "distinct (map (\<lambda>b. take 3 (fst b)) ?bs)" by simp
  have m: "([S ''regions'', S ''TEXT'', S ''0''], [bad_line, good_line]) \<in> set ?bs" by simp
  have i: "1 < length [bad_line, good_line]" by simp
  have e: "line_error (c_tables_of no_columns) (S ''regions'') (S ''TEXT'') (S ''0'') good_line \<le> 1 / 2"
    by (simp add: line_error_def good_line_def strip_line_def)
  from kept_line_ids [OF r d m i] e r show ?thesis by simp
qed

subsection \<open>Table blocks without columns\<close>

text \<open>
  C3. A line of a block \<open>regions/TABULAR\<close> without a columns entry has its error set to
  0 whatever the line reports; the comment in the source says that such lines are never
  reclassified. The code then frees the line when \<open>0 > threshold\<close>, and the threshold
  is a float option without a range: at \<open>-1\<close> the line of the table block \<open>0\<close>, which
  has no columns, is freed and no line is kept.
\<close>

theorem tabular_without_columns_freed:
  "[S ''regions'', S ''TABULAR'', S ''0''] \<notin> c_tables_of no_columns
   \<and> line_error (c_tables_of no_columns) (S ''regions'') (S ''TABULAR'') (S ''0'') good_line = 0
   \<and> reclassify (- 1) no_columns [([S ''regions'', S ''TABULAR'', S ''0''], [good_line])]
       = Inr ([], [([S ''regions'', S ''TEXT''], good_line)])"
  by (simp add: reclassify_def c_tables_of_def no_columns_def line_error_def good_line_def
      strip_line_def)

subsection \<open>The pipeline\<close>

text \<open>
  C1. On the page of the claim (one text block \<open>0\<close>, two lines with errors 0.1 and 0.8,
  threshold 0.5) the reclassifier keeps the first line at \<open>regions/TEXT/0/0\<close> and frees
  the second under its predicted path. Then \<open>process\<close> calls \<open>reliable_contours\<close>
  with three arguments for four required parameters and raises \<open>TypeError\<close>: no
  contour is built. The builder itself, applied to the contours, the kept lines and the
  freed list, gives what the claim describes: the freed line at its predicted path with
  the fresh id 1, and for \<open>regions/TEXT/0\<close> the hull of the kept line cut with the
  contour.
\<close>

theorem pipeline_scenario:
  "reclassify (1 / 2) no_columns [([S ''regions'', S ''TEXT'', S ''0''], [good_line, bad_line])]
     = Inr ([([S ''regions'', S ''TEXT'', S ''0'', I 0], good_line)],
            [([S ''regions'', S ''ILLUSTRATION''], bad_line)])
   \<and> process (1 / 2) no_columns page_blocks
        [([S ''regions'', S ''TEXT'', S ''0''], [good_line, bad_line])] = Inl TypeError
   \<and> fst (reliable_contours strip_shapely page_blocks
            [([S ''regions'', S ''TEXT'', S ''0'', I 0], good_line)]
            [([S ''regions'', S ''ILLUSTRATION''], bad_line)]
            [([S ''regions'', S ''TEXT'', S ''0'', I 0], good_line)] None)
       = Inr [([S ''regions'', S ''ILLUSTRATION'', I 1], [4, 5, 6, 7, 8]),
              ([S ''regions'', S ''TEXT'', S ''0''], [0, 1, 2, 3, 4])]"
proof -
  have r: "reclassify (1 / 2) no_columns [([S ''regions'', S ''TEXT'', S ''0''], [good_line, bad_line])]
     = Inr ([([S ''regions'', S ''TEXT'', S ''0'', I 0], good_line)],
            [([S ''regions'', S ''ILLUSTRATION''], bad_line)])"
    by (simp add: reclassify_def line_error_def good_line_def bad_line_def strip_line_def)
  have p: "process (1 / 2) no_columns page_blocks
        [([S ''regions'', S ''TEXT'', S ''0''], [good_line, bad_line])] = Inl TypeError"
    by (simp add: process_def r bind_positional_def page_blocks_def)
  have b: "fst (reliable_contours strip_shapely page_blocks
            [([S ''regions'', S ''TEXT'', S ''0'', I 0], good_line)]
            [([S ''regions'', S ''ILLUSTRATION''], bad_line)]
            [([S ''regions'', S ''TEXT'', S ''0'', I 0], good_line)] None)
       = Inr [([S ''regions'', S ''ILLUSTRATION'', I 1], [4, 5, 6, 7, 8]),
              ([S ''regions'', S ''TEXT'', S ''0''], [0, 1, 2, 3, 4])]"
    by code_simp
  from r p b show ?thesis by blast
qed

section \<open>Properties of \<open>LineRewriter\<close>\<close>

lemma column_path_cases:
  "1 \<le> c \<Longrightarrow> 1 \<le> c' \<Longrightarrow>
     (case column_path p c of Inl e \<Rightarrow> column_path p c' = Inl e
      | Inr q \<Rightarrow> (\<exists>q'. column_path p c' = Inr q'))"
  by (auto simp: column_path_def Let_def split: elem.splits sum.splits)

lemma column_parts_Inl:
  "column_path p (1 + i) = Inl e \<Longrightarrow> rs \<noteq> [] \<Longrightarrow> column_parts p l i rs = Inl e"
  by (cases rs) auto

lemma column_parts_Inr:
  "column_path p (1 + i) = Inr q \<Longrightarrow> \<exists>ps. column_parts p l i rs = Inr ps"
proof (induction rs arbitrary: i q)
  case Nil
  then show ?case by simp
next
  case (Cons r rs)
  have "case column_path p (1 + i) of Inl e \<Rightarrow> column_path p (1 + Suc i) = Inl e
      | Inr q \<Rightarrow> (\<exists>q'. column_path p (1 + Suc i) = Inr q')"
    by (rule column_path_cases) simp_all
  with Cons.prems obtain q' where "column_path p (1 + Suc i) = Inr q'" by auto
  from Cons.IH [OF this] obtain ps where "column_parts p l (Suc i) rs = Inr ps" by blast
  with Cons.prems show ?case by simp
qed

lemma column_parts_result:
  "column_parts p l i rs = Inr ps \<Longrightarrow>
     map (\<lambda>q. snd (snd q)) ps = map Some rs \<and> (\<forall>q\<in>set ps. fst (snd q) = l)"
proof (induction rs arbitrary: i ps)
  case Nil
  then show ?case by simp
next
  case (Cons r rs)
  from Cons.prems obtain q qs where q: "column_path p (1 + i) = Inr q"
    and qs: "column_parts p l (Suc i) rs = Inr qs" and ps: "ps = (q, l, Some r) # qs"
    by (auto split: sum.splits)
  from Cons.IH [OF qs] ps show ?case by simp
qed

lemma zip_cut: "length bs \<le> length as \<Longrightarrow> zip (as @ cs) bs = zip as bs"
  by (simp add: zip_append1)

lemma zip_ranges:
  "zip ([None] @ map Some xs @ [None]) (tl ([None] @ map Some xs @ [None]))
     = zip (None # map Some xs) (map Some xs @ [None])"
  using zip_cut [of "map Some xs @ [None]" "None # map Some xs" "[None]"] by simp

lemma rewrite_lines_parts:
  "rewrite_lines cols lines = Inr parts \<Longrightarrow>
     \<exists>pss. parts = concat pss \<and> length pss = length lines
       \<and> (\<forall>i<length lines. line_parts_of cols (fst (lines ! i)) (snd (lines ! i)) = Inr (pss ! i))"
proof (induction lines arbitrary: parts)
  case Nil
  then show ?case by simp
next
  case (Cons a lines)
  obtain p l where a: "a = (p, l)" by (cases a)
  from Cons.prems a obtain ps qs where ps: "line_parts_of cols p l = Inr ps"
    and qs: "rewrite_lines cols lines = Inr qs" and parts: "parts = ps @ qs"
    by (auto split: sum.splits)
  from Cons.IH [OF qs] obtain pss where pss: "qs = concat pss" "length pss = length lines"
    "\<forall>i<length lines. line_parts_of cols (fst (lines ! i)) (snd (lines ! i)) = Inr (pss ! i)"
    by blast
  have "\<forall>i<length (a # lines).
      line_parts_of cols (fst ((a # lines) ! i)) (snd ((a # lines) ! i)) = Inr ((ps # pss) ! i)"
  proof (intro allI impI)
    fix i assume "i < length (a # lines)"
    then show "line_parts_of cols (fst ((a # lines) ! i)) (snd ((a # lines) ! i)) = Inr ((ps # pss) ! i)"
      using ps pss(3) a by (cases i) auto
  qed
  with parts pss(1,2) show ?case
    by (intro exI [of _ "ps # pss"]) simp
qed

subsection \<open>The parts of a line\<close>

text \<open>
  C7. When the rewriter returns, its result is the parts of the lines one after the
  other, in the order of the mapping. A line whose block prefix \<open>path[:3]\<close> has a
  columns entry with \<open>N\<close> boundaries gives exactly \<open>N + 1\<close> parts, all of that line,
  whose column ranges are the consecutive pairs of \<open>None, x1, ..., xN, None\<close>: for the
  boundaries 100 and 300 the three ranges \<open>(None, 100)\<close>, \<open>(100, 300)\<close>,
  \<open>(300, None)\<close>. A line without an entry gives one part, with its own path and line
  and the range \<open>None\<close>.
\<close>

theorem rewriter_parts:
  assumes "LineRewriter_call columns lines = Inr parts"
  shows "\<exists>pss. parts = concat pss \<and> length pss = length lines
           \<and> (\<forall>i<length lines.
                case map_of (LineRewriter_init columns) (take 3 (fst (lines ! i))) of
                  None \<Rightarrow> pss ! i = [(fst (lines ! i), snd (lines ! i), None)]
                | Some xs \<Rightarrow>
                    length (pss ! i) = length xs + 1
                    \<and> map (\<lambda>q. snd (snd q)) (pss ! i)
                        = map Some (zip (None # map Some xs) (map Some xs @ [None]))
                    \<and> (\<forall>q\<in>set (pss ! i). fst (snd q) = snd (lines ! i)))"
proof -
  let ?cols = "LineRewriter_init columns"
  from rewrite_lines_parts [OF assms [unfolded LineRewriter_call_def]]
  obtain pss where pss: "parts = concat pss" "length pss = length lines"
    "\<forall>i<length lines. line_parts_of ?cols (fst (lines ! i)) (snd (lines ! i)) = Inr (pss ! i)"
    by blast
  have "case map_of ?cols (take 3 (fst (lines ! i))) of
          None \<Rightarrow> pss ! i = [(fst (lines ! i), snd (lines ! i), None)]
        | Some xs \<Rightarrow>
            length (pss ! i) = length xs + 1
            \<and> map (\<lambda>q. snd (snd q)) (pss ! i)
                = map Some (zip (None # map Some xs) (map Some xs @ [None]))
            \<and> (\<forall>q\<in>set (pss ! i). fst (snd q) = snd (lines ! i))"
    if i: "i < length lines" for i
  proof (cases "map_of ?cols (take 3 (fst (lines ! i)))")
    case None
    from pss(3) i have "line_parts_of ?cols (fst (lines ! i)) (snd (lines ! i)) = Inr (pss ! i)"
      by blast
    with None show ?thesis by (simp add: line_parts_of_def)
  next
    case (Some xs)
    from pss(3) i have "line_parts_of ?cols (fst (lines ! i)) (snd (lines ! i)) = Inr (pss ! i)"
      by blast
    with Some have cp: "column_parts (fst (lines ! i)) (snd (lines ! i)) 0
        (zip (None # map Some xs) (map Some xs @ [None])) = Inr (pss ! i)"
      by (simp add: line_parts_of_def Let_def zip_ranges del: append.simps tl_append2 list.sel)
    from column_parts_result [OF cp]
    have m: "map (\<lambda>q. snd (snd q)) (pss ! i)
        = map Some (zip (None # map Some xs) (map Some xs @ [None]))"
      and l: "\<forall>q\<in>set (pss ! i). fst (snd q) = snd (lines ! i)" by simp_all
    from m have "length (pss ! i) = length (zip (None # map Some xs) (map Some xs @ [None]))"
      by (metis length_map)
    then have "length (pss ! i) = length xs + 1" by simp
    with Some m l show ?thesis by simp
  qed
  with pss(1,2) show ?thesis by blast
qed

theorem rewriter_parts_witness:
  "LineRewriter_call table_columns_ex page_lines_ex = Inr parts_ex
   \<and> map_of (LineRewriter_init table_columns_ex) (take 3 (fst (page_lines_ex ! 0))) = Some [100, 300]
   \<and> map_of (LineRewriter_init table_columns_ex) (take 3 (fst (page_lines_ex ! 1))) = None
   \<and> (\<exists>pss. parts_ex = concat pss \<and> length pss = 2 \<and> length (pss ! 0) = 3
          \<and> map (\<lambda>q. snd (snd q)) (pss ! 0)
               = [Some (None, Some 100), Some (Some 100, Some 300), Some (Some 300, None)]
          \<and> pss ! 1 = [([S ''regions'', S ''TEXT'', S ''1'', I 0], ''text'', None)])"
proof -
  have h: "LineRewriter_call table_columns_ex page_lines_ex = Inr parts_ex" by code_simp
  have a: "map_of (LineRewriter_init table_columns_ex) (take 3 (fst (page_lines_ex ! 0))) = Some [100, 300]"
    by code_simp
  have b: "map_of (LineRewriter_init table_columns_ex) (take 3 (fst (page_lines_ex ! 1))) = None"
    by code_simp
  have n: "length page_lines_ex = 2" by code_simp
  have t: "page_lines_ex ! 1 = ([S ''regions'', S ''TEXT'', S ''1'', I 0], ''text'')" by code_simp
  from rewriter_parts [OF h] obtain pss where pss: "parts_ex = concat pss"
      "length pss = length page_lines_ex"
    and all: "\<forall>i<length page_lines_ex.
                case map_of (LineRewriter_init table_columns_ex) (take 3 (fst (page_lines_ex ! i))) of
                  None \<Rightarrow> pss ! i = [(fst (page_lines_ex ! i), snd (page_lines_ex ! i), None)]
                | Some xs \<Rightarrow>
                    length (pss ! i) = length xs + 1
                    \<and> map (\<lambda>q. snd (snd q)) (pss ! i)
                        = map Some (zip (None # map Some xs) (map Some xs @ [None]))
                    \<and> (\<forall>q\<in>set (pss ! i). fst (snd q) = snd (page_lines_ex ! i))"
    by blast
  from all [rule_format, of 0] n a have e0: "length (pss ! 0) = 3"
    "map (\<lambda>q. snd (snd q)) (pss ! 0)
       = [Some (None, Some 100), Some (Some 100, Some 300), Some (Some 300, None)]"
    by simp_all
  from all [rule_format, of 1] n b t
  have e1: "pss ! 1 = [([S ''regions'', S ''TEXT'', S ''1'', I 0], ''text'', None)]"
    by simp
  from pss n e0 e1 have "\<exists>pss. parts_ex = concat pss \<and> length pss = 2 \<and> length (pss ! 0) = 3
          \<and> map (\<lambda>q. snd (snd q)) (pss ! 0)
               = [Some (None, Some 100), Some (Some 100, Some 300), Some (Some 300, None)]
          \<and> pss ! 1 = [([S ''regions'', S ''TEXT'', S ''1'', I 0], ''text'', None)]"
    by (intro exI [of _ pss]) simp
  with h a b show ?thesis by blast
qed

subsection \<open>Malformed table paths\<close>

lemma py_int_error: "py_int x = Inl e \<Longrightarrow> e = ValueError"
  by (cases x) (auto simp: int_of_string_def Let_def split: option.splits)

lemma LineRewriter_init_keys:
  assumes "map_of (LineRewriter_init columns) K = Some xs"
  shows "\<exists>k. K = map S (split_on CHR ''/'' k)"
proof -
  let ?kvs = "map (\<lambda>(k, xs). (map S (split_on CHR ''/'' k), xs)) columns"
  from assms have "map_of (rev ?kvs) K = Some xs"
    by (simp add: LineRewriter_init_def map_of_fold_put)
  then have "(K, xs) \<in> set (rev ?kvs)" by (rule map_of_SomeD)
  then show ?thesis by auto
qed

lemma table_line_component:
  assumes "table_line columns p" and "3 \<le> length p"
  shows "\<exists>s. p ! 2 = S s"
proof -
  from assms(1) obtain xs where "map_of (LineRewriter_init columns) (take 3 p) = Some xs"
    by (auto simp: table_line_def)
  from LineRewriter_init_keys [OF this] obtain k where k: "take 3 p = map S (split_on CHR ''/'' k)"
    by blast
  from assms(2) have "p ! 2 = take 3 p ! 2" by simp
  also have "\<dots> = S (split_on CHR ''/'' k ! 2)"
  proof -
    from k assms(2) have "length (split_on CHR ''/'' k) = 3"
      by (metis length_map length_take min.absorb2)
    then show ?thesis by (simp add: k)
  qed
  finally show ?thesis by blast
qed

lemma column_parts_error:
  "column_parts p l i rs = Inl e \<Longrightarrow> \<exists>c\<ge>1. column_path p c = Inl e"
proof (induction rs arbitrary: i)
  case Nil
  then show ?case by simp
next
  case (Cons r rs)
  show ?case
  proof (cases "column_path p (1 + i)")
    case (Inl e')
    with Cons.prems have "e' = e" by simp
    with Inl show ?thesis by (intro exI [of _ "1 + i"]) simp
  next
    case (Inr q)
    with Cons.prems have "column_parts p l (Suc i) rs = Inl e" by (auto split: sum.splits)
    from Cons.IH [OF this] show ?thesis .
  qed
qed

lemma column_path_string:
  "1 \<le> c \<Longrightarrow> 3 \<le> length p \<Longrightarrow> p ! 2 = S s \<Longrightarrow>
     column_path p c =
       (if length (split_on CHR ''.'' s) \<noteq> 4 then Inl RuntimeError
        else (case py_int (last p) of
                Inl e \<Rightarrow> Inl e
              | Inr n \<Rightarrow>
                  Inr [p ! 0, p ! 1,
                       S (join_with ''.'' [split_on CHR ''.'' s ! 0, split_on CHR ''.'' s ! 1,
                            str_int (1 + n), str_nat c]),
                       S ''0'']))"
  by (simp add: column_path_def Let_def)

lemma column_path_early:
  "\<not> (1 \<le> c \<and> 3 \<le> length p \<and> (\<exists>s. p ! 2 = S s)) \<Longrightarrow>
     \<exists>e. column_path p c = Inl e \<and> e \<noteq> RuntimeError"
proof -
  assume a: "\<not> (1 \<le> c \<and> 3 \<le> length p \<and> (\<exists>s. p ! 2 = S s))"
  consider "\<not> 1 \<le> c" | "1 \<le> c" "length p < 2" | "1 \<le> c" "length p = 2"
    | "1 \<le> c" "3 \<le> length p" by linarith
  then show ?thesis
  proof cases
    case 1
    then show ?thesis by (simp add: column_path_def)
  next
    case 2
    then show ?thesis by (simp add: column_path_def)
  next
    case 3
    then show ?thesis by (simp add: column_path_def)
  next
    case 4
    with a obtain n where "p ! 2 = I n" by (cases "p ! 2") auto
    with 4 show ?thesis by (simp add: column_path_def)
  qed
qed

lemma block_fields_string: "3 \<le> length p \<Longrightarrow> p ! 2 = S s \<Longrightarrow> block_fields p = split_on CHR ''.'' s"
  by (simp add: block_fields_def)

lemma block_fields_early:
  "\<not> (3 \<le> length p \<and> (\<exists>s. p ! 2 = S s)) \<Longrightarrow> block_fields p = []"
  by (cases "p ! 2") (auto simp: block_fields_def)

lemma column_path_RuntimeError:
  assumes "column_path p c = Inl RuntimeError"
  shows "length (block_fields p) \<noteq> 4"
proof (cases "1 \<le> c \<and> 3 \<le> length p \<and> (\<exists>s. p ! 2 = S s)")
  case True
  then obtain s where c: "1 \<le> c" and l: "3 \<le> length p" and s: "p ! 2 = S s" by blast
  show ?thesis
  proof
    assume "length (block_fields p) = 4"
    then have four: "length (split_on CHR ''.'' s) = 4" by (simp add: block_fields_string [OF l s])
    show False
    proof (cases "py_int (last p)")
      case (Inl e)
      then have "e = ValueError" by (rule py_int_error)
      with assms Inl four show False by (simp add: column_path_string [OF c l s])
    next
      case (Inr n)
      with assms four show False by (simp add: column_path_string [OF c l s])
    qed
  qed
next
  case False
  from column_path_early [OF False] assms show ?thesis by auto
qed

lemma column_path_malformed:
  assumes "length (block_fields p) \<noteq> 4"
  shows "\<exists>e. column_path p c = Inl e"
proof (cases "1 \<le> c \<and> 3 \<le> length p \<and> (\<exists>s. p ! 2 = S s)")
  case True
  then obtain s where c: "1 \<le> c" and l: "3 \<le> length p" and s: "p ! 2 = S s" by blast
  from assms have "length (split_on CHR ''.'' s) \<noteq> 4" by (simp add: block_fields_string [OF l s])
  then show ?thesis by (simp add: column_path_string [OF c l s])
next
  case False
  from column_path_early [OF False] show ?thesis by blast
qed

lemma column_path_wellformed:
  assumes "3 \<le> length p" and "p ! 2 = S s" and "py_int (last p) = Inr n" and "1 \<le> c"
    and "column_path p c = Inl e"
  shows "e = RuntimeError"
  using assms(3,5) by (simp add: column_path_string [OF assms(4,1,2)] split: if_splits)

lemma line_parts_of_RuntimeError:
  assumes "line_parts_of cols p l = Inl RuntimeError"
  shows "map_of cols (take 3 p) \<noteq> None \<and> length (block_fields p) \<noteq> 4"
proof (cases "map_of cols (take 3 p)")
  case None
  with assms show ?thesis by (simp add: line_parts_of_def)
next
  case (Some xs)
  with assms have "column_parts p l 0
      (zip ([None] @ map Some xs @ [None]) (tl ([None] @ map Some xs @ [None]))) = Inl RuntimeError"
    by (simp add: line_parts_of_def Let_def del: append.simps)
  from column_parts_error [OF this] obtain c where "column_path p c = Inl RuntimeError" by blast
  from column_path_RuntimeError [OF this] Some show ?thesis by simp
qed

lemma line_parts_of_malformed:
  assumes "map_of cols (take 3 p) \<noteq> None" and "length (block_fields p) \<noteq> 4"
  shows "\<exists>e. line_parts_of cols p l = Inl e"
proof -
  from assms(1) obtain xs where xs: "map_of cols (take 3 p) = Some xs" by auto
  from column_path_malformed [OF assms(2)] obtain e where "column_path p (1 + 0) = Inl e" by blast
  then have "column_parts p l 0 (zip ([None] @ map Some xs @ [None]) (tl ([None] @ map Some xs @ [None]))) = Inl e"
    by (rule column_parts_Inl) (simp add: zip_ranges del: append.simps)
  with xs show ?thesis by (simp add: line_parts_of_def Let_def del: append.simps)
qed

lemma line_parts_of_wellformed:
  assumes "line_parts_of cols p l = Inl e" and "3 \<le> length p" and "p ! 2 = S s"
    and "py_int (last p) = Inr n"
  shows "e = RuntimeError"
proof (cases "map_of cols (take 3 p)")
  case None
  with assms(1) show ?thesis by (simp add: line_parts_of_def)
next
  case (Some xs)
  with assms(1) have "column_parts p l 0
      (zip ([None] @ map Some xs @ [None]) (tl ([None] @ map Some xs @ [None]))) = Inl e"
    by (simp add: line_parts_of_def Let_def del: append.simps)
  from column_parts_error [OF this] obtain c where "1 \<le> c" "column_path p c = Inl e" by blast
  with column_path_wellformed [OF assms(2-4)] show ?thesis by blast
qed

lemma rewrite_lines_error:
  "rewrite_lines cols lines = Inl e \<Longrightarrow> \<exists>x\<in>set lines. line_parts_of cols (fst x) (snd x) = Inl e"
proof (induction lines)
  case Nil
  then show ?case by simp
next
  case (Cons a lines)
  obtain p l where a: "a = (p, l)" by (cases a)
  show ?case
  proof (cases "line_parts_of cols p l")
    case (Inl e')
    with Cons.prems a show ?thesis by simp
  next
    case (Inr ps)
    with Cons.prems a have "rewrite_lines cols lines = Inl e" by (auto split: sum.splits)
    from Cons.IH [OF this] show ?thesis by auto
  qed
qed

lemma rewrite_lines_aborts:
  "x \<in> set lines \<Longrightarrow> line_parts_of cols (fst x) (snd x) = Inl e \<Longrightarrow>
     \<exists>e'. rewrite_lines cols lines = Inl e'"
proof (induction lines)
  case Nil
  then show ?case by simp
next
  case (Cons a lines)
  obtain p l where a: "a = (p, l)" by (cases a)
  show ?case
  proof (cases "line_parts_of cols p l")
    case (Inl e')
    with a show ?thesis by simp
  next
    case (Inr ps)
    with Cons.prems a have "x \<in> set lines" by auto
    from Cons.IH [OF this Cons.prems(2)] obtain e' where "rewrite_lines cols lines = Inl e'" by blast
    with Inr a show ?thesis by simp
  qed
qed

lemma malformed_only_if:
  assumes "LineRewriter_call columns lines = Inl RuntimeError"
  shows "\<exists>x\<in>set lines. malformed columns (fst x)"
proof -
  from assms have "rewrite_lines (LineRewriter_init columns) lines = Inl RuntimeError"
    by (simp add: LineRewriter_call_def)
  from rewrite_lines_error [OF this]
  obtain x where x: "x \<in> set lines"
    "line_parts_of (LineRewriter_init columns) (fst x) (snd x) = Inl RuntimeError"
    by blast
  from line_parts_of_RuntimeError [OF x(2)]
  have "map_of (LineRewriter_init columns) (take 3 (fst x)) \<noteq> None"
    and "length (block_fields (fst x)) \<noteq> 4" by blast+
  then have "malformed columns (fst x)"
    unfolding malformed_def table_line_def by blast
  with x(1) show ?thesis by blast
qed

lemma malformed_aborts:
  assumes "x \<in> set lines" and "malformed columns (fst x)"
  shows "\<exists>e. LineRewriter_call columns lines = Inl e"
proof -
  from assms(2) have a: "map_of (LineRewriter_init columns) (take 3 (fst x)) \<noteq> None"
    and b: "length (block_fields (fst x)) \<noteq> 4"
    unfolding malformed_def table_line_def by blast+
  have "\<exists>e. line_parts_of (LineRewriter_init columns) (fst x) (snd x) = Inl e"
    using a b by (rule line_parts_of_malformed)
  then obtain e
    where e: "line_parts_of (LineRewriter_init columns) (fst x) (snd x) = Inl e" ..
  have "\<exists>e'. rewrite_lines (LineRewriter_init columns) lines = Inl e'"
    using assms(1) e by (rule rewrite_lines_aborts)
  then show ?thesis by (simp add: LineRewriter_call_def)
qed

lemma malformed_if:
  assumes wf: "\<forall>x\<in>set lines. table_line columns (fst x) \<longrightarrow>
          3 \<le> length (fst x) \<and> (\<exists>n. py_int (last (fst x)) = Inr n)"
    and x: "x \<in> set lines" and m: "malformed columns (fst x)"
  shows "LineRewriter_call columns lines = Inl RuntimeError"
proof -
  from malformed_aborts [OF x m] obtain e where e: "LineRewriter_call columns lines = Inl e" by blast
  then have "rewrite_lines (LineRewriter_init columns) lines = Inl e"
    by (simp add: LineRewriter_call_def)
  from rewrite_lines_error [OF this]
  obtain y where y: "y \<in> set lines"
    "line_parts_of (LineRewriter_init columns) (fst y) (snd y) = Inl e" by blast
  have t: "table_line columns (fst y)"
  proof (rule ccontr)
    assume "\<not> table_line columns (fst y)"
    then have "map_of (LineRewriter_init columns) (take 3 (fst y)) = None"
      unfolding table_line_def by blast
    with y(2) show False by (simp add: line_parts_of_def)
  qed
  from wf y(1) have "table_line columns (fst y) \<longrightarrow>
          3 \<le> length (fst y) \<and> (\<exists>n. py_int (last (fst y)) = Inr n)" by (rule bspec)
  with t obtain n where len: "3 \<le> length (fst y)" and n: "py_int (last (fst y)) = Inr n"
    by blast
  from table_line_component [OF t len] obtain s where "fst y ! 2 = S s" by blast
  from line_parts_of_wellformed [OF y(2) len this n] e show ?thesis by simp
qed

text \<open>
  C8. The rewriter raises the validation error, \<open>RuntimeError\<close>, if and only if the
  mapping has a line that matches a table entry and whose table-block component does not
  have exactly four dot-separated fields (\<open>5.6.7\<close> has three); the call then returns
  no parts. The lines are lines of a page: a path that matches a table entry has its
  three block components, and its last component is a line id that \<open>int\<close> reads.
\<close>

theorem malformed_table_path:
  assumes "\<forall>x\<in>set lines. table_line columns (fst x) \<longrightarrow>
             3 \<le> length (fst x) \<and> (\<exists>n. py_int (last (fst x)) = Inr n)"
  shows "LineRewriter_call columns lines = Inl RuntimeError
           \<longleftrightarrow> (\<exists>x\<in>set lines. malformed columns (fst x))"
proof
  assume "LineRewriter_call columns lines = Inl RuntimeError"
  then show "\<exists>x\<in>set lines. malformed columns (fst x)" by (rule malformed_only_if)
next
  assume "\<exists>x\<in>set lines. malformed columns (fst x)"
  then obtain x where "x \<in> set lines" "malformed columns (fst x)" by blast
  with assms show "LineRewriter_call columns lines = Inl RuntimeError" by (rule malformed_if)
qed

theorem malformed_table_path_witness:
  "list_all (\<lambda>x. table_line table_columns_ex (fst x) \<longrightarrow>
        3 \<le> length (fst x) \<and> (\<exists>n. py_int (last (fst x)) = Inr n)) short_row_lines
   \<and> block_fields (fst (short_row_lines ! 1)) = [''5'', ''6'', ''7'']
   \<and> (\<exists>x\<in>set short_row_lines. malformed table_columns_ex (fst x))
   \<and> LineRewriter_call table_columns_ex short_row_lines = Inl RuntimeError"
proof -
  have m: "malformed table_columns_ex (fst (short_row_lines ! 1))" by code_simp
  have f: "block_fields (fst (short_row_lines ! 1)) = [''5'', ''6'', ''7'']" by code_simp
  have "short_row_lines ! 1 \<in> set short_row_lines" by (simp add: short_row_lines_def)
  with m have ex: "\<exists>x\<in>set short_row_lines. malformed table_columns_ex (fst x)" by blast
  have wf: "\<forall>x\<in>set short_row_lines. table_line table_columns_ex (fst x) \<longrightarrow>
        3 \<le> length (fst x) \<and> (\<exists>n. py_int (last (fst x)) = Inr n)"
    by (simp add: short_row_lines_def)
  from malformed_table_path [OF wf] ex
  have "LineRewriter_call table_columns_ex short_row_lines = Inl RuntimeError" by blast
  with wf ex f show ?thesis by (simp add: list_all_iff)
qed

section \<open>Properties of \<open>ConfidenceSampler\<close>\<close>

lemma np_item_mem: "np_item xs i = Inr c \<Longrightarrow> c \<in> set xs"
  by (auto simp: np_item_def split: if_splits)

lemma true_divide_pos: "0 < b \<Longrightarrow> true_divide a b = Inr (real a / real b)"
  by (simp add: true_divide_def)

lemma evidence_loop_no_zero:
  "0 < sum_all \<Longrightarrow> evidence_loop name counts sum_all ks ev \<noteq> Inl ZeroDivisionError"
proof (induction ks arbitrary: ev)
  case Nil
  then show ?case by simp
next
  case (Cons k ks)
  obtain k_name k_value where k: "k = (k_name, k_value)" by (cases k)
  show ?case
  proof (cases "np_item counts k_value")
    case (Inl e)
    then have "e = IndexError" by (auto simp: np_item_def split: if_splits)
    with Inl k show ?thesis by simp
  next
    case (Inr c)
    with k Cons.prems Cons.IH show ?thesis by (simp add: true_divide_pos)
  qed
qed

lemma evidence_loop_values:
  "0 < sum_all \<Longrightarrow> evidence_loop name counts sum_all ks ev = Inr ev' \<Longrightarrow> (key, v) \<in> set ev' \<Longrightarrow>
     (key, v) \<in> set ev \<or> (\<exists>c\<in>set counts. v = real c / real sum_all)"
proof (induction ks arbitrary: ev)
  case Nil
  then show ?case by simp
next
  case (Cons k ks)
  obtain k_name k_value where k: "k = (k_name, k_value)" by (cases k)
  from Cons.prems(2) k obtain c where c: "np_item counts k_value = Inr c"
    by (cases "np_item counts k_value") auto
  let ?ev1 = "AList.update (name @ ''/'' @ k_name) (real c / real sum_all) ev"
  from Cons.prems(1,2) k c have rest: "evidence_loop name counts sum_all ks ?ev1 = Inr ev'"
    by (simp add: true_divide_pos)
  from Cons.IH [OF Cons.prems(1) rest Cons.prems(3)] consider "(key, v) \<in> set ?ev1"
    | "\<exists>c\<in>set counts. v = real c / real sum_all" by blast
  then show ?case
  proof cases
    case 1
    with set_update_subset [of "name @ ''/'' @ k_name" "real c / real sum_all" ev]
    have "(key, v) = (name @ ''/'' @ k_name, real c / real sum_all) \<or> (key, v) \<in> set ev" by auto
    with np_item_mem [OF c] show ?thesis by auto
  next
    case 2
    then show ?thesis by blast
  qed
qed

lemma scale_grid_error:
  "scale_grid (h0, w0) s1 g = Inl e \<Longrightarrow> e = ZeroDivisionError \<and> (h0 = 0 \<or> w0 = 0)"
  by (cases s1) (auto simp: scale_grid_def true_divide_def split: if_splits)

lemma sample_counts_zero_division:
  assumes "sample_counts predictions (h0, w0) warped_grid remap path lin res = Inl ZeroDivisionError"
  shows "h0 = 0 \<or> w0 = 0"
proof -
  from assms have len: "\<not> length path < 2"
    by (auto simp: sample_counts_def split: if_splits)
  obtain pr where pr: "(case path ! 0 of S s \<Rightarrow> dict_item predictions s | I n \<Rightarrow> Inl KeyError) = Inr pr"
  proof (cases "case path ! 0 of S s \<Rightarrow> dict_item predictions s | I n \<Rightarrow> Inl KeyError")
    case (Inl e)
    then have "e = KeyError"
      by (auto simp: dict_item_def split: elem.splits option.splits)
    with Inl assms len have False by (simp add: sample_counts_def)
    then show ?thesis ..
  next
    case (Inr pr)
    with that show ?thesis .
  qed
  from assms len pr obtain e where
    "scale_grid (h0, w0) (labels_shape pr) (warped_grid lin res res) = Inl e"
    by (cases "scale_grid (h0, w0) (labels_shape pr) (warped_grid lin res res)")
       (auto simp: sample_counts_def)
  from scale_grid_error [OF this] show ?thesis by simp
qed

text \<open>
  C9. The sampler never divides by zero. For every path, line and resolution, on a page
  of positive height and width, the call does not end in a division by zero. And
  whenever the labels under the line have been counted: if the total count is zero the
  call returns the empty mapping; otherwise no division by zero occurs and every value
  of the returned evidence is a count divided by the total, which is positive.
\<close>

theorem sampler_never_divides_by_zero:
  "(0 < h0 \<and> 0 < w0 \<longrightarrow>
      ConfidenceSampler_call predictions (h0, w0) warped_grid remap path lin res
        \<noteq> Inl ZeroDivisionError)
   \<and> (\<forall>pr counts.
        sample_counts predictions (h0, w0) warped_grid remap path lin res = Inr (pr, counts) \<longrightarrow>
        (sum_list counts = 0 \<longrightarrow>
           ConfidenceSampler_call predictions (h0, w0) warped_grid remap path lin res = Inr [])
        \<and> (0 < sum_list counts \<longrightarrow>
           ConfidenceSampler_call predictions (h0, w0) warped_grid remap path lin res
             \<noteq> Inl ZeroDivisionError
           \<and> (\<forall>ev key v.
                ConfidenceSampler_call predictions (h0, w0) warped_grid remap path lin res = Inr ev
                \<longrightarrow> (key, v) \<in> set ev
                \<longrightarrow> (\<exists>c\<in>set counts. v = real c / real (sum_list counts)))))"
proof -
  let ?call = "ConfidenceSampler_call predictions (h0, w0) warped_grid remap path lin res"
  let ?sc = "sample_counts predictions (h0, w0) warped_grid remap path lin res"
  have b: "(sum_list counts = 0 \<longrightarrow> ?call = Inr [])
        \<and> (0 < sum_list counts \<longrightarrow> ?call \<noteq> Inl ZeroDivisionError
           \<and> (\<forall>ev key v. ?call = Inr ev \<longrightarrow> (key, v) \<in> set ev
                \<longrightarrow> (\<exists>c\<in>set counts. v = real c / real (sum_list counts))))"
    if sc: "?sc = Inr (pr, counts)" for pr counts
  proof -
    have unfold: "?call = (if 0 < sum_list counts
        then evidence_loop (format_s (path ! 0)) counts (sum_list counts) (classes pr) []
        else Inr [])"
      by (simp only: ConfidenceSampler_call_def sc sum.case prod.case Let_def)
    show ?thesis
    proof (cases "0 < sum_list counts")
      case False
      then have "?call = Inr []" using unfold by (simp only: if_False)
      with False show ?thesis by blast
    next
      case True
      then have call: "?call =
          evidence_loop (format_s (path ! 0)) counts (sum_list counts) (classes pr) []"
        using unfold by (simp only: if_True)
      have "?call \<noteq> Inl ZeroDivisionError"
        unfolding call by (rule evidence_loop_no_zero [OF True])
      moreover have "\<exists>c\<in>set counts. v = real c / real (sum_list counts)"
        if "?call = Inr ev" "(key, v) \<in> set ev" for ev key v
        using evidence_loop_values [OF True that(1) [unfolded call] that(2)] by simp
      moreover have "sum_list counts \<noteq> 0"
        using True by (simp del: sum_list_eq_0_iff)
      ultimately show ?thesis by blast
    qed
  qed
  have a: "?call \<noteq> Inl ZeroDivisionError" if pos: "0 < h0 \<and> 0 < w0"
  proof (cases ?sc)
    case (Inl e)
    with sample_counts_zero_division [of predictions h0 w0 warped_grid remap path lin res] pos
    have "e \<noteq> ZeroDivisionError" by auto
    with Inl show ?thesis by (simp add: ConfidenceSampler_call_def)
  next
    case (Inr x)
    obtain pr counts where "x = (pr, counts)" by (cases x)
    with Inr have sc: "?sc = Inr (pr, counts)" by simp
    show ?thesis
    proof (cases "0 < sum_list counts")
      case True
      with b [OF sc] show ?thesis by blast
    next
      case False
      then have "sum_list counts = 0" by (simp del: sum_list_eq_0_iff)
      with b [OF sc] show ?thesis by (simp del: sum_list_eq_0_iff)
    qed
  qed
  from a b show ?thesis by blast
qed

theorem sampler_never_divides_by_zero_witness:
  "sample_counts ex_predictions (4, 4) ex_grid nearest [S ''regions'', S ''TEXT''] () (1 / 2)
     = Inr (snd (hd ex_predictions), [1, 3])
   \<and> ConfidenceSampler_call ex_predictions (4, 4) ex_grid nearest [S ''regions'', S ''TEXT''] () (1 / 2)
     = Inr [(''regions/BACKGROUND'', 1 / 4), (''regions/TEXT'', 3 / 4)]
   \<and> ConfidenceSampler_call ex_predictions (4, 4) ex_grid nearest [S ''regions'', S ''TEXT''] () (1 / 2)
     \<noteq> Inl ZeroDivisionError
   \<and> sample_counts ex_predictions (4, 4) empty_grid nearest [S ''regions'', S ''TEXT''] () (1 / 2)
     = Inr (snd (hd ex_predictions), [0, 0])
   \<and> ConfidenceSampler_call ex_predictions (4, 4) empty_grid nearest [S ''regions'', S ''TEXT''] () (1 / 2)
     = Inr []"
proof -
  have s1: "sample_counts ex_predictions (4, 4) ex_grid nearest [S ''regions'', S ''TEXT''] () (1 / 2)
     = Inr (snd (hd ex_predictions), [1, 3])"
    by code_simp
  have c1: "ConfidenceSampler_call ex_predictions (4, 4) ex_grid nearest [S ''regions'', S ''TEXT''] () (1 / 2)
     = Inr [(''regions/BACKGROUND'', 1 / 4), (''regions/TEXT'', 3 / 4)]"
    by code_simp
  have s0: "sample_counts ex_predictions (4, 4) empty_grid nearest [S ''regions'', S ''TEXT''] () (1 / 2)
     = Inr (snd (hd ex_predictions), [0, 0])"
    by code_simp
  have pos: "(0 :: nat) < 4 \<and> (0 :: nat) < 4" by simp
  have z: "sum_list [0, 0 :: nat] = 0" by simp
  from sampler_never_divides_by_zero [of 4 4 ex_predictions ex_grid nearest
      "[S ''regions'', S ''TEXT'']" "()" "1 / 2"] pos
  have n1: "ConfidenceSampler_call ex_predictions (4, 4) ex_grid nearest [S ''regions'', S ''TEXT''] () (1 / 2)
     \<noteq> Inl ZeroDivisionError" by blast
  from sampler_never_divides_by_zero [of 4 4 ex_predictions empty_grid nearest
      "[S ''regions'', S ''TEXT'']" "()" "1 / 2"] s0 z
  have e0: "ConfidenceSampler_call ex_predictions (4, 4) empty_grid nearest [S ''regions'', S ''TEXT''] () (1 / 2)
     = Inr []" by blast
  from s1 c1 n1 s0 e0 show ?thesis by blast
qed

end
